theory Spec2Isabelle
  imports Complex_Main "HOL-Library.Word"
begin

section \<open>Python values and the object store\<close>

text \<open>
  The configuration of the integration is JSON-shaped Python data: scalars, and the
  mutable containers \<open>dict\<close> and \<open>list\<close>. Containers live in a store and are
  referred to by address, so that aliasing between the stored configuration and the colour
  list built from it can be stated. An address is an index of the store; allocation
  appends. Dictionaries keep their insertion order (an association list with string keys).

  Numbers: a Python \<open>int\<close> is an \<open>int\<close>; a finite Python \<open>float\<close> is the
  rational it denotes. Arithmetic on them is exact in this development: the rounding of
  binary floating point is not modelled.
\<close>

datatype pyerror = KeyError | TypeError | ValueError | AttributeError
  | ZeroDivisionError | RecursionError

type_synonym addr = nat

datatype pyval = PNone | PBool bool | PInt int | PFloat rat | PStr string | PRef addr

datatype pyobj = PDict "(string \<times> pyval) list" | PList "pyval list"

type_synonym heap = "pyobj list"

definition deref :: "heap \<Rightarrow> addr \<Rightarrow> pyobj option" where
  "deref h a = (if a < length h then Some (h ! a) else None)"

text \<open>\<open>v[k]\<close> for a string key: only a dict can be subscripted by a string.\<close>

definition getitem :: "heap \<Rightarrow> pyval \<Rightarrow> string \<Rightarrow> pyerror + pyval" where
  "getitem h v k =
     (case v of
        PRef a \<Rightarrow>
          (case deref h a of
             Some (PDict kvs) \<Rightarrow>
               (case map_of kvs k of None \<Rightarrow> Inl KeyError | Some x \<Rightarrow> Inr x)
           | _ \<Rightarrow> Inl TypeError)
      | _ \<Rightarrow> Inl TypeError)"

text \<open>
  Iteration (\<open>for x in v\<close>, \<open>tuple(v)\<close>): the elements of a list, the keys of a dict,
  the characters of a string; any other value is not iterable.
\<close>

definition py_iter :: "heap \<Rightarrow> pyval \<Rightarrow> pyerror + pyval list" where
  "py_iter h v =
     (case v of
        PRef a \<Rightarrow>
          (case deref h a of
             Some (PList vs) \<Rightarrow> Inr vs
           | Some (PDict kvs) \<Rightarrow> Inr (map (\<lambda>kv. PStr (fst kv)) kvs)
           | None \<Rightarrow> Inl TypeError)
      | PStr s \<Rightarrow> Inr (map (\<lambda>c. PStr [c]) s)
      | _ \<Rightarrow> Inl TypeError)"

text \<open>The numeric value of an operand of \<open>+\<close> and \<open>/\<close>; \<open>bool\<close> is a subclass of \<open>int\<close>.\<close>

definition number :: "pyval \<Rightarrow> rat option" where
  "number v =
     (case v of
        PInt i \<Rightarrow> Some (of_int i)
      | PFloat r \<Rightarrow> Some r
      | PBool b \<Rightarrow> Some (if b then 1 else 0)
      | _ \<Rightarrow> None)"

definition py_truediv :: "rat \<Rightarrow> rat \<Rightarrow> pyerror + rat" where
  "py_truediv a b = (if b = 0 then Inl ZeroDivisionError else Inr (a / b))"

text \<open>\<open>int(x)\<close> truncates towards zero.\<close>

definition py_int :: "rat \<Rightarrow> int" where
  "py_int x = (if 0 \<le> x then \<lfloor>x\<rfloor> else \<lceil>x\<rceil>)"

section \<open>The raster image (Pillow)\<close>

text \<open>
  An RGB image of Pillow is its size and its pixels. A new image is black.
  \<open>ImageDraw.rectangle([x0, y0, x1, y1], fill)\<close> first converts the fill to an ink and
  then fills the bounding box, clipped to the image. Pillow documents the bounding box
  of \<open>rectangle\<close> as inclusive of both endpoints: the columns \<open>x0\<close> to \<open>x1\<close> and
  the rows \<open>y0\<close> to \<open>y1\<close> are filled, \<open>x1\<close> and \<open>y1\<close> included. Coordinates are
  unbounded integers here.
\<close>

type_synonym rgb = "int \<times> int \<times> int"

record image =
  im_width :: int
  im_height :: int
  im_pixel :: "int \<Rightarrow> int \<Rightarrow> rgb"

definition new_image :: "int \<Rightarrow> int \<Rightarrow> image" where
  "new_image w h = \<lparr>im_width = w, im_height = h, im_pixel = (\<lambda>x y. (0, 0, 0))\<rparr>"

definition int_of :: "pyval \<Rightarrow> int option" where
  "int_of v = (case v of PInt i \<Rightarrow> Some i | PBool b \<Rightarrow> Some (if b then 1 else 0) | _ \<Rightarrow> None)"

definition clip8 :: "int \<Rightarrow> int" where
  "clip8 i = (if i < 0 then 0 else if 255 < i then 255 else i)"

text \<open>
  The ink of a fill tuple for mode RGB: three integers, or four (the alpha is dropped),
  each clipped to 0..255; a one-element tuple holds a packed integer. Anything else is a
  \<open>TypeError\<close>.
\<close>

definition getink :: "pyval list \<Rightarrow> pyerror + rgb" where
  "getink t =
     (case map int_of t of
        [Some p] \<Rightarrow> Inr (p mod 256, (p div 256) mod 256, (p div 65536) mod 256)
      | [Some r, Some g, Some b] \<Rightarrow> Inr (clip8 r, clip8 g, clip8 b)
      | [Some r, Some g, Some b, Some a] \<Rightarrow> Inr (clip8 r, clip8 g, clip8 b)
      | _ \<Rightarrow> Inl TypeError)"

definition in_box :: "int \<Rightarrow> int \<Rightarrow> int \<Rightarrow> int \<Rightarrow> int \<Rightarrow> int \<Rightarrow> bool" where
  "in_box x0 y0 x1 y1 x y = (x0 \<le> x \<and> x \<le> x1 \<and> y0 \<le> y \<and> y \<le> y1)"

definition in_canvas :: "image \<Rightarrow> int \<Rightarrow> int \<Rightarrow> bool" where
  "in_canvas im x y = (0 \<le> x \<and> x < im_width im \<and> 0 \<le> y \<and> y < im_height im)"

definition fill_box :: "image \<Rightarrow> int \<Rightarrow> int \<Rightarrow> int \<Rightarrow> int \<Rightarrow> rgb \<Rightarrow> image" where
  "fill_box im x0 y0 x1 y1 c =
     im\<lparr>im_pixel := (\<lambda>x y. if in_box x0 y0 x1 y1 x y \<and> in_canvas im x y then c
                             else im_pixel im x y)\<rparr>"

definition rectangle ::
  "image \<Rightarrow> int \<Rightarrow> int \<Rightarrow> int \<Rightarrow> int \<Rightarrow> pyval list \<Rightarrow> pyerror + image" where
  "rectangle im x0 y0 x1 y1 fill =
     (case getink fill of
        Inl e \<Rightarrow> Inl e
      | Inr c \<Rightarrow> if x1 < x0 \<or> y1 < y0 then Inl ValueError
                 else Inr (fill_box im x0 y0 x1 y1 c))"

section \<open>The image entity\<close>

type_synonym bytes = "8 word list"

type_synonym timestamp = nat

record ha_image =
  content :: bytes
  content_type :: string

text \<open>
  The fields of \<open>AnimatedScenesImage\<close>; \<open>config\<close> is the reference to the dict
  \<open>self._config\<close>.
\<close>

record entity =
  attr_name :: string
  attr_image_last_updated :: timestamp
  cached_image :: "ha_image option"
  attr_unique_id :: string
  config :: pyval

subsection \<open>\<open>create_color_block_image\<close>\<close>

definition width :: int where
  "width = 500"

definition height :: int where
  "height = 100"

text \<open>
  \<open>color_info["weight"]\<close> as an operand of \<open>+\<close> and \<open>/\<close>: a missing key raises
  \<open>KeyError\<close>, a value that is not a number \<open>TypeError\<close>.
\<close>

definition weight_of :: "heap \<Rightarrow> pyval \<Rightarrow> pyerror + rat" where
  "weight_of h color_info =
     (case getitem h color_info ''weight'' of
        Inl e \<Rightarrow> Inl e
      | Inr w \<Rightarrow> (case number w of None \<Rightarrow> Inl TypeError | Some x \<Rightarrow> Inr x))"

text \<open>
  \<open>sum(color_info["weight"] for color_info in scene_colors)\<close>: the running sum starts
  at 0 and stops at the first exception.
\<close>

fun sum_weights :: "heap \<Rightarrow> pyval list \<Rightarrow> rat \<Rightarrow> pyerror + rat" where
  "sum_weights h [] acc = Inr acc"
| "sum_weights h (color_info # rest) acc =
     (case weight_of h color_info of
        Inl e \<Rightarrow> Inl e
      | Inr x \<Rightarrow> sum_weights h rest (acc + x))"

text \<open>\<open>int((color_info["weight"] / total_weight) * width)\<close>\<close>

definition block_width :: "heap \<Rightarrow> rat \<Rightarrow> pyval \<Rightarrow> pyerror + int" where
  "block_width h total_weight color_info =
     (case weight_of h color_info of
        Inl e \<Rightarrow> Inl e
      | Inr x \<Rightarrow>
          (case py_truediv x total_weight of
             Inl e \<Rightarrow> Inl e
           | Inr q \<Rightarrow> Inr (py_int (q * of_int width))))"

text \<open>\<open>tuple(color_info["color"])\<close>\<close>

definition color_tuple :: "heap \<Rightarrow> pyval \<Rightarrow> pyerror + pyval list" where
  "color_tuple h color_info =
     (case getitem h color_info ''color'' of
        Inl e \<Rightarrow> Inl e
      | Inr c \<Rightarrow> py_iter h c)"

text \<open>The loop over \<open>scene_colors\<close>; its state is the image and \<open>current_x\<close>.\<close>

fun draw_blocks ::
  "heap \<Rightarrow> rat \<Rightarrow> pyval list \<Rightarrow> image \<times> int \<Rightarrow> pyerror + image \<times> int" where
  "draw_blocks h total_weight [] st = Inr st"
| "draw_blocks h total_weight (color_info # rest) (block_image, current_x) =
     (case block_width h total_weight color_info of
        Inl e \<Rightarrow> Inl e
      | Inr bw \<Rightarrow>
          if bw \<le> 0 then draw_blocks h total_weight rest (block_image, current_x)
          else
            (case color_tuple h color_info of
               Inl e \<Rightarrow> Inl e
             | Inr color \<Rightarrow>
                 (case rectangle block_image current_x 0 (current_x + bw) height color of
                    Inl e \<Rightarrow> Inl e
                  | Inr im \<Rightarrow> draw_blocks h total_weight rest (im, current_x + bw))))"

text \<open>\<open>sum(...) or 1\<close>\<close>

definition or_1 :: "rat \<Rightarrow> rat" where
  "or_1 s = (if s = 0 then 1 else s)"

text \<open>
  Lines 152 to 167: the total weight, the new image and the loop. The result is the
  finished image and the final \<open>current_x\<close>.
\<close>

definition draw_image :: "heap \<Rightarrow> pyval \<Rightarrow> pyerror + image \<times> int" where
  "draw_image h scene_colors =
     (case py_iter h scene_colors of
        Inl e \<Rightarrow> Inl e
      | Inr cs \<Rightarrow>
          (case sum_weights h cs 0 of
             Inl e \<Rightarrow> Inl e
           | Inr s \<Rightarrow> draw_blocks h (or_1 s) cs (new_image width height, 0)))"

text \<open>
  The whole method. \<open>png\<close> is the PNG encoder of Pillow (\<open>block_image.save\<close>) and
  \<open>now\<close> the reading of the clock (\<open>dt_util.utcnow()\<close>) at the end of the call. The
  result is the exception raised, if any, and the entity after the call.
\<close>

definition create_color_block_image ::
  "(image \<Rightarrow> bytes) \<Rightarrow> timestamp \<Rightarrow> heap \<Rightarrow> entity \<Rightarrow> pyval \<Rightarrow> pyerror option \<times> entity" where
  "create_color_block_image png now h self scene_colors =
     (case draw_image h scene_colors of
        Inl e \<Rightarrow> (Some e, self)
      | Inr (block_image, current_x) \<Rightarrow>
          (None, self\<lparr>cached_image := Some \<lparr>content = png block_image,
                                              content_type = ''image/png''\<rparr>,
                       attr_image_last_updated := now\<rparr>))"

text \<open>
  The rectangles the loop draws, in order, each as its left edge \<open>current_x\<close>, its
  \<open>block_width\<close> and its ink, up to the end of the list or the first exception.
\<close>

fun drawn_blocks :: "heap \<Rightarrow> rat \<Rightarrow> pyval list \<Rightarrow> int \<Rightarrow> (int \<times> int \<times> rgb) list" where
  "drawn_blocks h total_weight [] current_x = []"
| "drawn_blocks h total_weight (color_info # rest) current_x =
     (case block_width h total_weight color_info of
        Inl e \<Rightarrow> []
      | Inr bw \<Rightarrow>
          if bw \<le> 0 then drawn_blocks h total_weight rest current_x
          else
            (case color_tuple h color_info of
               Inl e \<Rightarrow> []
             | Inr color \<Rightarrow>
                 (case getink color of
                    Inl e \<Rightarrow> []
                  | Inr c \<Rightarrow>
                      (current_x, bw, c) # drawn_blocks h total_weight rest (current_x + bw))))"

text \<open>Painting one such rectangle, as the call of \<open>draw.rectangle\<close> in the loop does.\<close>

definition paint :: "image \<Rightarrow> int \<times> int \<times> rgb \<Rightarrow> image" where
  "paint im b = (case b of (x, bw, c) \<Rightarrow> fill_box im x 0 (x + bw) height c)"

text \<open>
  The ink of an entry's colour, as the loop obtains it for an entry it draws:
  \<open>tuple(color_info["color"])\<close>, then the conversion inside \<open>draw.rectangle\<close>.
\<close>

definition entry_ink :: "heap \<Rightarrow> pyval \<Rightarrow> pyerror + rgb" where
  "entry_ink h color_info =
     (case color_tuple h color_info of Inl e \<Rightarrow> Inl e | Inr color \<Rightarrow> getink color)"

section \<open>Normalising the configuration\<close>

subsection \<open>The keys of the configuration\<close>

text \<open>
  The module \<open>const\<close> names the keys and values of the configuration. Their values
  are left open: the definitions below take them as the parameter \<open>K\<close>.
\<close>

record const_names =
  CONF_COLOR_SELECTOR_MODE :: string
  COLOR_SELECTOR_RGB_UI :: string
  CONF_COLOR_RGB :: string
  CONF_COLOR_RGB_DICT :: string
  CONF_COLOR_TYPE :: string
  CONF_COLORS :: string
  CONF_NAME :: string

subsection \<open>Operations on dicts\<close>

text \<open>
  \<open>d.get(k, default)\<close>, \<open>d.update({k: v})\<close> and \<open>list(d.values())\<close>; a value that is
  not a dict has none of these methods (\<open>AttributeError\<close>). Setting a key keeps the
  position of a key that is present and appends a new one.
\<close>

definition dict_get :: "heap \<Rightarrow> pyval \<Rightarrow> string \<Rightarrow> pyval \<Rightarrow> pyerror + pyval" where
  "dict_get h d k dflt =
     (case d of
        PRef a \<Rightarrow>
          (case deref h a of
             Some (PDict kvs) \<Rightarrow> Inr (case map_of kvs k of None \<Rightarrow> dflt | Some v \<Rightarrow> v)
           | _ \<Rightarrow> Inl AttributeError)
      | _ \<Rightarrow> Inl AttributeError)"

fun dict_setitem :: "(string \<times> 'v) list \<Rightarrow> string \<Rightarrow> 'v \<Rightarrow> (string \<times> 'v) list" where
  "dict_setitem [] k v = [(k, v)]"
| "dict_setitem (p # ps) k v = (if fst p = k then (k, v) # ps else p # dict_setitem ps k v)"

definition dict_update :: "heap \<Rightarrow> pyval \<Rightarrow> string \<Rightarrow> pyval \<Rightarrow> pyerror + heap" where
  "dict_update h d k v =
     (case d of
        PRef a \<Rightarrow>
          (case deref h a of
             Some (PDict kvs) \<Rightarrow> Inr (h[a := PDict (dict_setitem kvs k v)])
           | _ \<Rightarrow> Inl AttributeError)
      | _ \<Rightarrow> Inl AttributeError)"

definition dict_values :: "heap \<Rightarrow> pyval \<Rightarrow> pyerror + pyval list" where
  "dict_values h d =
     (case d of
        PRef a \<Rightarrow>
          (case deref h a of
             Some (PDict kvs) \<Rightarrow> Inr (map snd kvs)
           | _ \<Rightarrow> Inl AttributeError)
      | _ \<Rightarrow> Inl AttributeError)"

subsection \<open>\<open>copy.deepcopy\<close>\<close>

text \<open>
  A scalar is its own copy; a list or a dict is copied into a new object whose elements
  are the copies of the elements (the keys of a dict are strings). \<open>fuel\<close> is the depth
  of nested calls the interpreter still allows: when it is used up the call raises
  \<open>RecursionError\<close>. The memo of \<open>deepcopy\<close>, which keeps sharing and cycles inside
  the copied structure, is left out: configuration data are read from JSON storage and are
  trees, on which the memo is never hit. Addresses are names only: the copy of a
  container is allocated here when its elements have been copied.
\<close>

fun copy_all ::
  "(heap \<Rightarrow> pyval \<Rightarrow> pyerror + heap \<times> pyval) \<Rightarrow> heap \<Rightarrow> pyval list
     \<Rightarrow> pyerror + heap \<times> pyval list" where
  "copy_all f h [] = Inr (h, [])"
| "copy_all f h (v # vs) =
     (case f h v of
        Inl e \<Rightarrow> Inl e
      | Inr (h1, v') \<Rightarrow>
          (case copy_all f h1 vs of
             Inl e \<Rightarrow> Inl e
           | Inr (h2, vs') \<Rightarrow> Inr (h2, v' # vs')))"

primrec deepcopy :: "nat \<Rightarrow> heap \<Rightarrow> pyval \<Rightarrow> pyerror + heap \<times> pyval" where
  "deepcopy 0 h v = Inl RecursionError"
| "deepcopy (Suc n) h v =
     (case v of
        PRef a \<Rightarrow>
          (case deref h a of
             None \<Rightarrow> Inl TypeError
           | Some (PList vs) \<Rightarrow>
               (case copy_all (deepcopy n) h vs of
                  Inl e \<Rightarrow> Inl e
                | Inr (h', vs') \<Rightarrow> Inr (h' @ [PList vs'], PRef (length h')))
           | Some (PDict kvs) \<Rightarrow>
               (case copy_all (deepcopy n) h (map snd kvs) of
                  Inl e \<Rightarrow> Inl e
                | Inr (h', vs') \<Rightarrow>
                    Inr (h' @ [PDict (zip (map fst kvs) vs')], PRef (length h'))))
      | _ \<Rightarrow> Inr (h, v))"

subsection \<open>\<open>_async_build_colors_from_rgb_dict\<close> and \<open>async_added_to_hass\<close>\<close>

text \<open>The loop \<open>for color in color_list: color.update({CONF_COLOR_TYPE: CONF_COLOR_RGB})\<close>.\<close>

fun tag_all :: "const_names \<Rightarrow> heap \<Rightarrow> pyval list \<Rightarrow> pyerror + heap" where
  "tag_all K h [] = Inr h"
| "tag_all K h (color # rest) =
     (case dict_update h color (CONF_COLOR_TYPE K) (PStr (CONF_COLOR_RGB K)) of
        Inl e \<Rightarrow> Inl e
      | Inr h' \<Rightarrow> tag_all K h' rest)"

text \<open>
  The default \<open>{}\<close> of \<open>get\<close> is a new dict; the deep copy, the list of its values and
  the tagging follow; the last statement stores the list under \<open>CONF_COLORS\<close>. The
  result is the exception raised or the store after the call.
\<close>

definition async_build_colors_from_rgb_dict ::
  "const_names \<Rightarrow> nat \<Rightarrow> heap \<Rightarrow> entity \<Rightarrow> pyerror + heap" where
  "async_build_colors_from_rgb_dict K fuel h self =
     (case dict_get (h @ [PDict []]) (config self) (CONF_COLOR_RGB_DICT K) (PRef (length h)) of
        Inl e \<Rightarrow> Inl e
      | Inr rgb_dict \<Rightarrow>
          (case deepcopy fuel (h @ [PDict []]) rgb_dict of
             Inl e \<Rightarrow> Inl e
           | Inr (h1, copied) \<Rightarrow>
               (case dict_values h1 copied of
                  Inl e \<Rightarrow> Inl e
                | Inr vals \<Rightarrow>
                    (case tag_all K (h1 @ [PList vals]) vals of
                       Inl e \<Rightarrow> Inl e
                     | Inr h2 \<Rightarrow>
                         dict_update h2 (config self) (CONF_COLORS K) (PRef (length h1))))))"

text \<open>
  Lines 109 to 112, up to the call of \<open>create_color_block_image\<close>: the conditional
  rebuild of the colour list and the argument \<open>self._config.get(CONF_COLORS, [])\<close>,
  whose default is a new list.
\<close>

definition scene_colors_of_config ::
  "const_names \<Rightarrow> nat \<Rightarrow> heap \<Rightarrow> entity \<Rightarrow> pyerror + heap \<times> pyval" where
  "scene_colors_of_config K fuel h self =
     (case dict_get h (config self) (CONF_COLOR_SELECTOR_MODE K) PNone of
        Inl e \<Rightarrow> Inl e
      | Inr mode \<Rightarrow>
          (case (if mode = PStr (COLOR_SELECTOR_RGB_UI K)
                 then async_build_colors_from_rgb_dict K fuel h self else Inr h) of
             Inl e \<Rightarrow> Inl e
           | Inr h1 \<Rightarrow>
               (case dict_get (h1 @ [PList []]) (config self) (CONF_COLORS K) (PRef (length h1)) of
                  Inl e \<Rightarrow> Inl e
                | Inr scene_colors \<Rightarrow> Inr (h1 @ [PList []], scene_colors))))"

text \<open>
  The whole of \<open>async_added_to_hass\<close>: the exception raised, if any, the store and the
  entity after the call. When the rebuild raises, the configuration has not been changed
  and the store is returned as it was.
\<close>

definition async_added_to_hass ::
  "const_names \<Rightarrow> (image \<Rightarrow> bytes) \<Rightarrow> timestamp \<Rightarrow> nat \<Rightarrow> heap \<Rightarrow> entity
     \<Rightarrow> pyerror option \<times> heap \<times> entity" where
  "async_added_to_hass K png now fuel h self =
     (case scene_colors_of_config K fuel h self of
        Inl e \<Rightarrow> (Some e, h, self)
      | Inr (h1, scene_colors) \<Rightarrow>
          (case create_color_block_image png now h1 self scene_colors of
             (outcome, self') \<Rightarrow> (outcome, h1, self')))"

subsection \<open>Reading the store as a tree\<close>

text \<open>
  The value a reference stands for, unfolded to the given depth: a tree whose inner nodes
  carry the address of the list or dict they come from (a dict node has its keys and,
  in the same order, the trees of its values). The result is \<open>None\<close> when the
  structure is deeper than the depth given (in particular when it is cyclic) or refers
  outside the store. \<open>set_ptree\<close> of a tree is the set of the addresses in it, and
  \<open>erase\<close> forgets them: two values are equal as Python values when their erased trees
  are equal.
\<close>

datatype 'a ptree = Leaf pyval | DictNode 'a "string list" "'a ptree list"
  | ListNode 'a "'a ptree list"

fun traverse :: "('a \<Rightarrow> 'b option) \<Rightarrow> 'a list \<Rightarrow> 'b list option" where
  "traverse f [] = Some []"
| "traverse f (x # xs) =
     (case f x of
        None \<Rightarrow> None
      | Some y \<Rightarrow> (case traverse f xs of None \<Rightarrow> None | Some ys \<Rightarrow> Some (y # ys)))"

primrec tree_of :: "nat \<Rightarrow> heap \<Rightarrow> pyval \<Rightarrow> addr ptree option" where
  "tree_of 0 h v = None"
| "tree_of (Suc n) h v =
     (case v of
        PRef a \<Rightarrow>
          (case deref h a of
             None \<Rightarrow> None
           | Some (PList vs) \<Rightarrow> map_option (ListNode a) (traverse (tree_of n h) vs)
           | Some (PDict kvs) \<Rightarrow>
               map_option (DictNode a (map fst kvs)) (traverse (tree_of n h) (map snd kvs)))
      | _ \<Rightarrow> Some (Leaf v))"

definition erase :: "'a ptree \<Rightarrow> unit ptree" where
  "erase t = map_ptree (\<lambda>_. ()) t"

text \<open>The addresses of a tree, each as often as it occurs, the root first.\<close>

primrec addr_list :: "'a ptree \<Rightarrow> 'a list" where
  "addr_list (Leaf v) = []"
| "addr_list (DictNode a ks ts) = a # concat (map addr_list ts)"
| "addr_list (ListNode a ts) = a # concat (map addr_list ts)"

text \<open>
  The tagging as it shows in the store and in a tree: the object, respectively the dict
  node, with \<open>CONF_COLOR_TYPE\<close> set to \<open>CONF_COLOR_RGB\<close>.
\<close>

definition tag_obj :: "const_names \<Rightarrow> pyobj \<Rightarrow> pyobj" where
  "tag_obj K obj =
     (case obj of
        PDict kvs \<Rightarrow> PDict (dict_setitem kvs (CONF_COLOR_TYPE K) (PStr (CONF_COLOR_RGB K)))
      | PList vs \<Rightarrow> PList vs)"

definition tag_tree :: "const_names \<Rightarrow> 'a ptree \<Rightarrow> 'a ptree" where
  "tag_tree K t =
     (case t of
        DictNode a ks ts \<Rightarrow>
          DictNode a
            (map fst (dict_setitem (zip ks ts) (CONF_COLOR_TYPE K) (Leaf (PStr (CONF_COLOR_RGB K)))))
            (map snd (dict_setitem (zip ks ts) (CONF_COLOR_TYPE K) (Leaf (PStr (CONF_COLOR_RGB K)))))
      | _ \<Rightarrow> t)"

definition is_dict_node :: "'a ptree \<Rightarrow> bool" where
  "is_dict_node t = (case t of DictNode a ks ts \<Rightarrow> True | _ \<Rightarrow> False)"

section \<open>Example stores\<close>

text \<open>
  Two entries of weight zero (an integer and a float), the second without a colour:
  \<open>[{"color": [255, 0, 0], "weight": 0}, {"weight": 0.0}]\<close> at address 3.
\<close>

definition zero_heap :: heap where
  "zero_heap =
     [PList [PInt 255, PInt 0, PInt 0],
      PDict [(''color'', PRef 0), (''weight'', PInt 0)],
      PDict [(''weight'', PFloat 0)],
      PList [PRef 1, PRef 2]]"

text \<open>
  A tiny weight beside a large one:
  \<open>[{"color": [255, 0, 0], "weight": 1}, {"color": [0, 0, 255], "weight": 999}]\<close>
  at address 4.
\<close>

definition small_heap :: heap where
  "small_heap =
     [PList [PInt 255, PInt 0, PInt 0],
      PList [PInt 0, PInt 0, PInt 255],
      PDict [(''color'', PRef 0), (''weight'', PInt 1)],
      PDict [(''color'', PRef 1), (''weight'', PInt 999)],
      PList [PRef 2, PRef 3]]"

text \<open>
  A negative weight: the weights \<open>-1\<close>, \<open>3\<close> and \<open>2.5\<close>, the list at address 5.
\<close>

definition neg_heap :: heap where
  "neg_heap =
     [PList [PInt 255, PInt 0, PInt 0],
      PList [PInt 0, PInt 0, PInt 255],
      PDict [(''color'', PRef 0), (''weight'', PInt (- 1))],
      PDict [(''color'', PRef 0), (''weight'', PInt 3)],
      PDict [(''color'', PRef 1), (''weight'', PFloat (5 / 2))],
      PList [PRef 2, PRef 3, PRef 4]]"

text \<open>
  The scenario of the specification:
  \<open>[{"color": [255, 0, 0], "weight": 3}, {"color": [0, 0, 255], "weight": 1}]\<close>
  at address 4.
\<close>

definition scenario_heap :: heap where
  "scenario_heap =
     [PList [PInt 255, PInt 0, PInt 0],
      PList [PInt 0, PInt 0, PInt 255],
      PDict [(''color'', PRef 0), (''weight'', PInt 3)],
      PDict [(''color'', PRef 1), (''weight'', PInt 1)],
      PList [PRef 2, PRef 3]]"

text \<open>
  An entry whose colour is the string \<open>"red"\<close>: beside a heavy entry (the list at
  address 3), where its block width is 0, and alone (the list at address 5).
\<close>

definition bad_color_heap :: heap where
  "bad_color_heap =
     [PList [PInt 0, PInt 0, PInt 255],
      PDict [(''color'', PStr ''red''), (''weight'', PInt 1)],
      PDict [(''color'', PRef 0), (''weight'', PInt 999)],
      PList [PRef 1, PRef 2],
      PDict [(''color'', PStr ''red''), (''weight'', PInt 1)],
      PList [PRef 4]]"

text \<open>
  A configuration in RGB mode with the mapping of the specification,
  \<open>{"a": {"color": [255, 0, 0], "weight": 1}, "b": {"color": [0, 255, 0], "weight": 1}}\<close>;
  the configuration dict is at address 5.
\<close>

definition rgb_heap :: heap where
  "rgb_heap =
     [PList [PInt 255, PInt 0, PInt 0],
      PList [PInt 0, PInt 255, PInt 0],
      PDict [(''color'', PRef 0), (''weight'', PInt 1)],
      PDict [(''color'', PRef 1), (''weight'', PInt 1)],
      PDict [(''a'', PRef 2), (''b'', PRef 3)],
      PDict [(''name'', PStr ''Scene''), (''color_selector_mode'', PStr ''rgb_ui''),
             (''color_rgb_dict'', PRef 4)]]"

text \<open>A configuration in RGB mode without any colours, at address 0.\<close>

definition bare_heap :: heap where
  "bare_heap = [PDict [(''name'', PStr ''Scene''), (''color_selector_mode'', PStr ''rgb_ui'')]]"

text \<open>Values for the keys, and an entity whose configuration is at a given address.\<close>

definition names :: const_names where
  "names = \<lparr>CONF_COLOR_SELECTOR_MODE = ''color_selector_mode'',
            COLOR_SELECTOR_RGB_UI = ''rgb_ui'', CONF_COLOR_RGB = ''rgb'',
            CONF_COLOR_RGB_DICT = ''color_rgb_dict'', CONF_COLOR_TYPE = ''color_type'',
            CONF_COLORS = ''colors'', CONF_NAME = ''name''\<rparr>"

definition entity_at :: "addr \<Rightarrow> entity" where
  "entity_at c = \<lparr>attr_name = ''Scene Color Block'', attr_image_last_updated = 0,
                  cached_image = None, attr_unique_id = ''id-image'', config = PRef c\<rparr>"

text \<open>The colour mapping of that configuration, read as a tree.\<close>

definition rgb_tree :: "addr ptree" where
  "rgb_tree = DictNode 4 [''a'', ''b'']
        [DictNode 2 [''color'', ''weight'']
           [ListNode 0 [Leaf (PInt 255), Leaf (PInt 0), Leaf (PInt 0)], Leaf (PInt 1)],
         DictNode 3 [''color'', ''weight'']
           [ListNode 1 [Leaf (PInt 0), Leaf (PInt 255), Leaf (PInt 0)], Leaf (PInt 1)]]"

section \<open>Evaluation on concrete stores\<close>

lemma floor_rat_numeral:
  "\<lfloor>numeral a / numeral b :: rat\<rfloor> = numeral a div numeral b"
  by (metis floor_divide_of_int_eq of_int_numeral)

lemma floor_rat_one_numeral:
  "\<lfloor>1 / numeral b :: rat\<rfloor> = 1 div numeral b"
  by (metis floor_divide_of_int_eq of_int_1 of_int_numeral)

lemma floor_rat_neg_numeral:
  "\<lfloor>- (numeral a / numeral b) :: rat\<rfloor> = - numeral a div numeral b"
  by (metis divide_minus_left floor_divide_of_int_eq of_int_neg_numeral of_int_numeral)

lemma ceiling_rat_numeral:
  "\<lceil>numeral a / numeral b :: rat\<rceil> = - (- numeral a div numeral b)"
  using ceiling_divide_eq_div [of "numeral a" "numeral b", where ?'a = rat] by simp

lemma ceiling_rat_neg_numeral:
  "\<lceil>- (numeral a / numeral b) :: rat\<rceil> = - (numeral a div numeral b)"
  using ceiling_divide_eq_div [of "- numeral a" "numeral b", where ?'a = rat] by simp

lemmas eval_defs = floor_rat_numeral floor_rat_one_numeral floor_rat_neg_numeral
  ceiling_rat_numeral ceiling_rat_neg_numeral
  weight_of_def getitem_def deref_def number_def block_width_def
  py_truediv_def py_int_def width_def height_def color_tuple_def py_iter_def getink_def
  int_of_def clip8_def or_1_def

section \<open>Degenerate weights\<close>

lemma sum_weights_zero:
  "\<forall>ci\<in>set cs. weight_of h ci = Inr 0 \<Longrightarrow> sum_weights h cs acc = Inr acc"
  by (induction cs arbitrary: acc) auto

lemma block_width_zero:
  "weight_of h ci = Inr 0 \<Longrightarrow> block_width h 1 ci = Inr 0"
  by (simp add: block_width_def py_truediv_def py_int_def)

lemma draw_blocks_zero:
  "\<forall>ci\<in>set cs. weight_of h ci = Inr 0 \<Longrightarrow> draw_blocks h 1 cs st = Inr st"
proof (induction cs)
  case Nil
  show ?case by simp
next
  case (Cons ci cs)
  then show ?case by (cases st) (simp add: block_width_zero)
qed

lemma drawn_blocks_zero:
  "\<forall>ci\<in>set cs. weight_of h ci = Inr 0 \<Longrightarrow> drawn_blocks h 1 cs x = []"
  by (induction cs) (auto simp: block_width_zero)

text \<open>
  Claim C1. When every entry of the list has weight zero (the empty list included),
  \<open>create_color_block_image\<close> raises nothing, in particular no \<open>ZeroDivisionError\<close>:
  the sum of the weights is 0 and is replaced by 1, every block width is 0, no rectangle
  is drawn, and the cached image is the encoding of the new, entirely black image.
\<close>

theorem all_zero_weights_render_background:
  assumes "py_iter h scene_colors = Inr cs"
    and "\<forall>ci\<in>set cs. weight_of h ci = Inr 0"
  shows "sum_weights h cs 0 = Inr 0 \<and> or_1 0 = 1
    \<and> (\<forall>ci\<in>set cs. block_width h (or_1 0) ci = Inr 0)
    \<and> drawn_blocks h (or_1 0) cs 0 = []
    \<and> create_color_block_image png now h self scene_colors =
        (None, self\<lparr>cached_image := Some \<lparr>content = png (new_image width height),
                                            content_type = ''image/png''\<rparr>,
                     attr_image_last_updated := now\<rparr>)"
  using assms
  by (simp add: sum_weights_zero or_1_def block_width_zero drawn_blocks_zero
      draw_blocks_zero create_color_block_image_def draw_image_def)

theorem all_zero_weights_render_background_witness:
  "\<forall>png now self.
     py_iter zero_heap (PRef 3) = Inr [PRef 1, PRef 2]
     \<and> weight_of zero_heap (PRef 1) = Inr 0 \<and> weight_of zero_heap (PRef 2) = Inr 0
     \<and> drawn_blocks zero_heap 1 [PRef 1, PRef 2] 0 = []
     \<and> create_color_block_image png now zero_heap self (PRef 3) =
        (None, self\<lparr>cached_image := Some \<lparr>content = png (new_image width height),
                                            content_type = ''image/png''\<rparr>,
                     attr_image_last_updated := now\<rparr>)"
proof (intro allI)
  fix png :: "image \<Rightarrow> bytes" and now :: timestamp and self :: entity
  have it: "py_iter zero_heap (PRef 3) = Inr [PRef 1, PRef 2]"
    by (simp add: zero_heap_def py_iter_def deref_def)
  have w1: "weight_of zero_heap (PRef 1) = Inr 0"
    by (simp add: zero_heap_def weight_of_def getitem_def deref_def number_def)
  have w2: "weight_of zero_heap (PRef 2) = Inr 0"
    by (simp add: zero_heap_def weight_of_def getitem_def deref_def number_def)
  have "\<forall>ci\<in>set [PRef 1, PRef 2]. weight_of zero_heap ci = Inr 0"
    using w1 w2 by simp
  from all_zero_weights_render_background [OF it this, of png now self] it w1 w2
  show "py_iter zero_heap (PRef 3) = Inr [PRef 1, PRef 2]
     \<and> weight_of zero_heap (PRef 1) = Inr 0 \<and> weight_of zero_heap (PRef 2) = Inr 0
     \<and> drawn_blocks zero_heap 1 [PRef 1, PRef 2] 0 = []
     \<and> create_color_block_image png now zero_heap self (PRef 3) =
        (None, self\<lparr>cached_image := Some \<lparr>content = png (new_image width height),
                                            content_type = ''image/png''\<rparr>,
                     attr_image_last_updated := now\<rparr>)"
    by (simp add: or_1_def)
qed

section \<open>The loop and the rectangles it draws\<close>

lemma rectangle_positive:
  "0 < bw \<Longrightarrow> rectangle im x 0 (x + bw) height color =
     (case getink color of Inl e \<Rightarrow> Inl e | Inr c \<Rightarrow> Inr (paint im (x, bw, c)))"
  by (simp add: rectangle_def paint_def height_def split: sum.splits)

text \<open>
  A run of the loop that ends normally has painted exactly the rectangles of
  \<open>drawn_blocks\<close>, in order, and has advanced \<open>current_x\<close> by the sum of their widths.
\<close>

lemma draw_blocks_drawn:
  "draw_blocks h t cs (im, x) = Inr (im', x') \<Longrightarrow>
     im' = foldl paint im (drawn_blocks h t cs x)
     \<and> x' = x + sum_list (map (\<lambda>b. fst (snd b)) (drawn_blocks h t cs x))"
proof (induction cs arbitrary: im x)
  case Nil
  then show ?case by simp
next
  case (Cons ci cs)
  from Cons.prems obtain bw where bw: "block_width h t ci = Inr bw"
    by (auto split: sum.splits)
  show ?case
  proof (cases "bw \<le> 0")
    case True
    with bw Cons.prems have "draw_blocks h t cs (im, x) = Inr (im', x')" by simp
    from Cons.IH [OF this] bw True show ?thesis by simp
  next
    case False
    with bw Cons.prems obtain color c where ct: "color_tuple h ci = Inr color"
      and ink: "getink color = Inr c"
      and rest: "draw_blocks h t cs (paint im (x, bw, c), x + bw) = Inr (im', x')"
      by (auto simp: rectangle_positive split: sum.splits)
    from Cons.IH [OF rest] bw False ct ink show ?thesis by simp
  qed
qed

lemma drawn_blocks_lower:
  "b \<in> set (drawn_blocks h t cs x) \<Longrightarrow> x \<le> fst b \<and> 0 < fst (snd b)"
proof (induction cs arbitrary: x)
  case Nil
  then show ?case by simp
next
  case (Cons ci cs)
  show ?case
  proof (cases "block_width h t ci")
    case (Inl e)
    with Cons.prems show ?thesis by simp
  next
    case (Inr bw)
    show ?thesis
    proof (cases "bw \<le> 0")
      case True
      with Inr Cons.prems have "b \<in> set (drawn_blocks h t cs x)" by simp
      from Cons.IH [OF this] show ?thesis .
    next
      case False
      with Inr Cons.prems have
        "(fst b = x \<and> fst (snd b) = bw) \<or> b \<in> set (drawn_blocks h t cs (x + bw))"
        by (auto split: sum.splits)
      then show ?thesis
      proof
        assume "fst b = x \<and> fst (snd b) = bw"
        with False show ?thesis by simp
      next
        assume "b \<in> set (drawn_blocks h t cs (x + bw))"
        from Cons.IH [OF this] False show ?thesis by simp
      qed
    qed
  qed
qed

lemma drawn_blocks_sorted: "sorted (map fst (drawn_blocks h t cs x))"
proof (induction cs arbitrary: x)
  case Nil
  then show ?case by simp
next
  case (Cons ci cs)
  show ?case
  proof (cases "block_width h t ci")
    case (Inl e)
    then show ?thesis by simp
  next
    case (Inr bw)
    show ?thesis
    proof (cases "bw \<le> 0")
      case True
      with Inr Cons show ?thesis by simp
    next
      case False
      have "\<forall>b\<in>set (drawn_blocks h t cs (x + bw)). x \<le> fst b"
        using drawn_blocks_lower [of _ h t cs "x + bw"] False by fastforce
      with Inr False Cons [of "x + bw"] show ?thesis
        by (auto split: sum.splits)
    qed
  qed
qed

text \<open>
  Claim C10. Whatever the weights are (negative ones included; nothing validates them),
  \<open>current_x\<close> never decreases: every rectangle the loop draws has a strictly positive
  width and starts at or right of the starting cursor, the left edges of the rectangles
  are in non-decreasing order, and a run that ends normally ends with a cursor that is
  not left of where it started. The drawing starts at cursor 0.
\<close>

theorem cursor_never_moves_left:
  "sorted (map fst (drawn_blocks h t cs x))
   \<and> (\<forall>b\<in>set (drawn_blocks h t cs x). x \<le> fst b \<and> 0 < fst (snd b))
   \<and> (\<forall>im im' x'. draw_blocks h t cs (im, x) = Inr (im', x') \<longrightarrow> x \<le> x')
   \<and> (\<forall>im' x'. draw_image h scene_colors = Inr (im', x') \<longrightarrow> 0 \<le> x')"
proof (intro conjI allI impI ballI)
  show "sorted (map fst (drawn_blocks h t cs x))" by (rule drawn_blocks_sorted)
next
  fix b assume "b \<in> set (drawn_blocks h t cs x)"
  then show "x \<le> fst b" "0 < fst (snd b)" using drawn_blocks_lower by blast+
next
  have *: "x \<le> x'" if "draw_blocks h t cs (im, x) = Inr (im', x')" for h t cs im x im' x'
  proof -
    from that have "x' = x + sum_list (map (\<lambda>b. fst (snd b)) (drawn_blocks h t cs x))"
      using draw_blocks_drawn by blast
    moreover have "0 \<le> sum_list (map (\<lambda>b. fst (snd b)) (drawn_blocks h t cs x))"
      by (rule sum_list_nonneg) (use drawn_blocks_lower in fastforce)
    ultimately show ?thesis by simp
  qed
  {
    fix im im' x' assume "draw_blocks h t cs (im, x) = Inr (im', x')"
    then show "x \<le> x'" by (rule *)
  next
    fix im' x' assume "draw_image h scene_colors = Inr (im', x')"
    then show "0 \<le> x'"
      by (auto simp: draw_image_def split: sum.splits dest: *)
  }
qed

theorem cursor_never_moves_left_witness:
  "sum_weights neg_heap [PRef 2, PRef 3, PRef 4] 0 = Inr (9 / 2)
   \<and> block_width neg_heap (9 / 2) (PRef 2) = Inr (- 111)
   \<and> drawn_blocks neg_heap (9 / 2) [PRef 2, PRef 3, PRef 4] 0 =
       [(0, 333, (255, 0, 0)), (333, 277, (0, 0, 255))]
   \<and> sorted (map fst (drawn_blocks neg_heap (9 / 2) [PRef 2, PRef 3, PRef 4] 0))
   \<and> (\<exists>im. draw_image neg_heap (PRef 5) = Inr (im, 610))"
  using cursor_never_moves_left [of neg_heap "9 / 2" "[PRef 2, PRef 3, PRef 4]" 0 "PRef 5"]
  by (simp add: neg_heap_def eval_defs draw_image_def rectangle_def)

section \<open>Skipped entries\<close>

text \<open>
  Claim C4. An entry whose computed block width is \<open>\<le> 0\<close> is skipped: wherever it
  stands in the list, the loop over the list with the entry (same total weight) ends in
  the same image and the same cursor as the loop over the list without it, and the
  rectangles drawn for the other entries have the same positions, widths and inks. The
  entry's colour is not looked at.
\<close>

theorem zero_width_entry_skipped:
  assumes "block_width h t ci = Inr bw" and "bw \<le> 0"
  shows "draw_blocks h t (pre @ ci # post) st = draw_blocks h t (pre @ post) st
    \<and> drawn_blocks h t (pre @ ci # post) x = drawn_blocks h t (pre @ post) x"
proof
  show "draw_blocks h t (pre @ ci # post) st = draw_blocks h t (pre @ post) st"
  proof (induction pre arbitrary: st)
    case Nil
    then show ?case using assms by (cases st) simp
  next
    case (Cons a pre)
    then show ?case by (cases st) (simp split: sum.splits)
  qed
  show "drawn_blocks h t (pre @ ci # post) x = drawn_blocks h t (pre @ post) x"
  proof (induction pre arbitrary: x)
    case Nil
    then show ?case using assms by simp
  next
    case (Cons a pre)
    then show ?case by (simp split: sum.splits)
  qed
qed

theorem zero_width_entry_skipped_witness:
  "sum_weights small_heap [PRef 2, PRef 3] 0 = Inr 1000
   \<and> block_width small_heap 1000 (PRef 2) = Inr 0
   \<and> drawn_blocks small_heap 1000 [PRef 2, PRef 3] 0 = [(0, 499, (0, 0, 255))]
   \<and> drawn_blocks small_heap 1000 [PRef 3] 0 = [(0, 499, (0, 0, 255))]
   \<and> (\<forall>st. draw_blocks small_heap 1000 [PRef 2, PRef 3] st =
             draw_blocks small_heap 1000 [PRef 3] st)"
proof -
  have bw: "block_width small_heap 1000 (PRef 2) = Inr 0"
    by (simp add: small_heap_def eval_defs)
  have le: "(0::int) \<le> 0" by simp
  from zero_width_entry_skipped [OF bw le, of "[]" "[PRef 3]"]
  have "\<forall>st. draw_blocks small_heap 1000 [PRef 2, PRef 3] st =
             draw_blocks small_heap 1000 [PRef 3] st"
    by simp
  moreover have "sum_weights small_heap [PRef 2, PRef 3] 0 = Inr 1000"
    by (simp add: small_heap_def eval_defs)
  moreover have "drawn_blocks small_heap 1000 [PRef 2, PRef 3] 0 = [(0, 499, (0, 0, 255))]"
    by (simp add: small_heap_def eval_defs)
  moreover have "drawn_blocks small_heap 1000 [PRef 3] 0 = [(0, 499, (0, 0, 255))]"
    by (simp add: small_heap_def eval_defs)
  ultimately show ?thesis using bw by simp
qed

section \<open>The pixels of a block\<close>

lemmas image_defs = paint_def fill_box_def in_box_def in_canvas_def new_image_def
  rectangle_def draw_image_def

text \<open>
  The bounding box of a rectangle includes its right edge: a block of width \<open>bw\<close> drawn
  at \<open>x\<close> also paints the column \<open>x + bw\<close>, where the next block starts.
\<close>

lemma paint_right_edge:
  "0 < bw \<Longrightarrow> in_canvas im (x + bw) y \<Longrightarrow> y \<le> height \<Longrightarrow>
     im_pixel (paint im (x, bw, c)) (x + bw) y = c"
  by (simp add: image_defs)

text \<open>
  Claim C3 (each block fills exactly the columns from the cursor, inclusive, to cursor
  plus block width, exclusive, and no later block overwrites a pixel of an earlier one)
  does not hold of the code. For the weights 3 and 1 the red block is drawn at 0 with
  width 375 and the blue one at 375 with width 125; the red rectangle paints column 375
  as well, and the blue rectangle then overwrites it: in the finished image column 374 is
  red and column 375 is blue.
\<close>

theorem adjacent_blocks_overlap:
  "drawn_blocks scenario_heap 4 [PRef 2, PRef 3] 0 =
      [(0, 375, (255, 0, 0)), (375, 125, (0, 0, 255))]
   \<and> im_pixel (paint (new_image width height) (0, 375, (255, 0, 0))) 375 0 = (255, 0, 0)
   \<and> (\<exists>im. draw_image scenario_heap (PRef 4) = Inr (im, 500)
         \<and> im_pixel im 374 0 = (255, 0, 0) \<and> im_pixel im 375 0 = (0, 0, 255))"
  by (simp add: scenario_heap_def eval_defs image_defs)

section \<open>Malformed entries and the cache\<close>

lemma sum_weights_raises:
  "ci \<in> set cs \<Longrightarrow> weight_of h ci = Inl e \<Longrightarrow> \<exists>e'. sum_weights h cs acc = Inl e'"
  by (induction cs arbitrary: acc) (auto split: sum.splits)

lemma draw_blocks_raises:
  "ci \<in> set cs \<Longrightarrow> block_width h t ci = Inr bw \<Longrightarrow> 0 < bw \<Longrightarrow> entry_ink h ci = Inl e
     \<Longrightarrow> \<exists>e'. draw_blocks h t cs st = Inl e'"
proof (induction cs arbitrary: st)
  case Nil
  then show ?case by simp
next
  case (Cons a cs)
  obtain im x where st: "st = (im, x)" by (cases st)
  show ?case
  proof (cases "a = ci")
    case True
    with Cons.prems st show ?thesis
      by (auto simp: entry_ink_def rectangle_def split: sum.splits)
  next
    case False
    with Cons.prems have "ci \<in> set cs" by simp
    from Cons.IH [OF this Cons.prems(2-4)] st show ?thesis
      by (auto split: sum.splits)
  qed
qed

text \<open>
  Claim C5 as stated (every list with a malformed entry makes the call raise) fails: the
  second entry of the list below has no colour at all, its weight is zero, and the call
  returns normally and replaces the cached image.
\<close>

theorem malformed_entry_skipped_counterexample:
  "entry_ink zero_heap (PRef 2) = Inl KeyError
   \<and> (\<forall>png now self. create_color_block_image png now zero_heap self (PRef 3) =
        (None, self\<lparr>cached_image := Some \<lparr>content = png (new_image width height),
                                            content_type = ''image/png''\<rparr>,
                     attr_image_last_updated := now\<rparr>))"
  by (simp add: zero_heap_def eval_defs entry_ink_def create_color_block_image_def image_defs)

text \<open>
  Claim C5, amended. If the weight of some entry is missing or not a number, the call
  raises. If all weights are numbers and some entry whose computed block width is positive
  has a colour that is missing, not iterable or not an RGB ink, the call raises. Whenever
  the call raises, the entity (its cached image and its timestamp) is unchanged; when it
  returns normally, the cached image is the encoding of the finished image and the
  timestamp is the clock reading of this call.
\<close>

theorem malformed_entry_raises_cache_kept:
  assumes "py_iter h scene_colors = Inr cs"
  shows "((\<exists>ci\<in>set cs. \<exists>e. weight_of h ci = Inl e) \<longrightarrow>
            (\<exists>e. fst (create_color_block_image png now h self scene_colors) = Some e))
    \<and> (\<forall>s. sum_weights h cs 0 = Inr s \<longrightarrow>
          (\<exists>ci\<in>set cs. \<exists>bw e. block_width h (or_1 s) ci = Inr bw \<and> 0 < bw
              \<and> entry_ink h ci = Inl e) \<longrightarrow>
          (\<exists>e. fst (create_color_block_image png now h self scene_colors) = Some e))
    \<and> (\<forall>e. fst (create_color_block_image png now h self scene_colors) = Some e \<longrightarrow>
          snd (create_color_block_image png now h self scene_colors) = self)
    \<and> (fst (create_color_block_image png now h self scene_colors) = None \<longrightarrow>
          (\<exists>im x. draw_image h scene_colors = Inr (im, x)
             \<and> snd (create_color_block_image png now h self scene_colors) =
                 self\<lparr>cached_image := Some \<lparr>content = png im, content_type = ''image/png''\<rparr>,
                      attr_image_last_updated := now\<rparr>))"
proof (intro conjI allI impI)
  assume "\<exists>ci\<in>set cs. \<exists>e. weight_of h ci = Inl e"
  then obtain e' where "sum_weights h cs 0 = Inl e'"
    using sum_weights_raises by blast
  with assms show "\<exists>e. fst (create_color_block_image png now h self scene_colors) = Some e"
    by (simp add: create_color_block_image_def draw_image_def)
next
  fix s
  assume s: "sum_weights h cs 0 = Inr s"
    and "\<exists>ci\<in>set cs. \<exists>bw e. block_width h (or_1 s) ci = Inr bw \<and> 0 < bw
              \<and> entry_ink h ci = Inl e"
  then obtain e' where "draw_blocks h (or_1 s) cs (new_image width height, 0) = Inl e'"
    using draw_blocks_raises by blast
  with assms s show "\<exists>e. fst (create_color_block_image png now h self scene_colors) = Some e"
    by (simp add: create_color_block_image_def draw_image_def)
next
  fix e assume "fst (create_color_block_image png now h self scene_colors) = Some e"
  then show "snd (create_color_block_image png now h self scene_colors) = self"
    by (auto simp: create_color_block_image_def split: sum.splits)
next
  assume "fst (create_color_block_image png now h self scene_colors) = None"
  then show "\<exists>im x. draw_image h scene_colors = Inr (im, x)
             \<and> snd (create_color_block_image png now h self scene_colors) =
                 self\<lparr>cached_image := Some \<lparr>content = png im, content_type = ''image/png''\<rparr>,
                      attr_image_last_updated := now\<rparr>"
    by (auto simp: create_color_block_image_def split: sum.splits)
qed

theorem malformed_entry_raises_cache_kept_witness:
  "\<forall>png now self.
     py_iter bad_color_heap (PRef 5) = Inr [PRef 4]
     \<and> sum_weights bad_color_heap [PRef 4] 0 = Inr 1
     \<and> block_width bad_color_heap (or_1 1) (PRef 4) = Inr 500
     \<and> entry_ink bad_color_heap (PRef 4) = Inl TypeError
     \<and> fst (create_color_block_image png now bad_color_heap self (PRef 5)) = Some TypeError
     \<and> snd (create_color_block_image png now bad_color_heap self (PRef 5)) = self"
proof (intro allI)
  fix png :: "image \<Rightarrow> bytes" and now :: timestamp and self :: entity
  have it: "py_iter bad_color_heap (PRef 5) = Inr [PRef 4]"
    by (simp add: bad_color_heap_def eval_defs)
  have s: "sum_weights bad_color_heap [PRef 4] 0 = Inr 1"
    by (simp add: bad_color_heap_def eval_defs)
  have bw: "block_width bad_color_heap (or_1 1) (PRef 4) = Inr 500"
    by (simp add: bad_color_heap_def eval_defs)
  have ink: "entry_ink bad_color_heap (PRef 4) = Inl TypeError"
    by (simp add: bad_color_heap_def eval_defs entry_ink_def)
  have run: "fst (create_color_block_image png now bad_color_heap self (PRef 5)) = Some TypeError"
    by (simp add: bad_color_heap_def eval_defs create_color_block_image_def image_defs)
  from malformed_entry_raises_cache_kept [OF it, of png now self] run
  have "snd (create_color_block_image png now bad_color_heap self (PRef 5)) = self"
    by blast
  with it s bw ink run
  show "py_iter bad_color_heap (PRef 5) = Inr [PRef 4]
     \<and> sum_weights bad_color_heap [PRef 4] 0 = Inr 1
     \<and> block_width bad_color_heap (or_1 1) (PRef 4) = Inr 500
     \<and> entry_ink bad_color_heap (PRef 4) = Inl TypeError
     \<and> fst (create_color_block_image png now bad_color_heap self (PRef 5)) = Some TypeError
     \<and> snd (create_color_block_image png now bad_color_heap self (PRef 5)) = self"
    by simp
qed

section \<open>A configuration without colours\<close>

lemma map_of_dict_setitem:
  "map_of (dict_setitem kvs k v) k' = (if k' = k then Some v else map_of kvs k')"
  by (induction kvs) auto

lemma deref_Some: "deref h a = Some obj \<longleftrightarrow> a < length h \<and> h ! a = obj"
  by (auto simp: deref_def)

lemma deref_append: "a < length h \<Longrightarrow> deref (h @ ext) a = deref h a"
  by (simp add: deref_def nth_append)

lemma deref_append_new: "deref (h @ obj # ext) (length h) = Some obj"
  by (simp add: deref_def nth_append)

lemma draw_image_empty:
  "py_iter h sc = Inr [] \<Longrightarrow> draw_image h sc = Inr (new_image width height, 0)"
  by (simp add: draw_image_def or_1_def)

text \<open>
  Claim C8. When the configuration holds neither a colour list (\<open>CONF_COLORS\<close>) nor a
  colour mapping (\<open>CONF_COLOR_RGB_DICT\<close>), then in either selector mode (given call depth
  for one \<open>deepcopy\<close> call) the colour list handed to the renderer is empty, nothing is
  raised, and the renderer caches the encoding of the black image.
\<close>

theorem no_colors_configured_renders_empty:
  assumes cfg: "config self = PRef c" "deref h c = Some (PDict ckvs)"
    and no_colors: "map_of ckvs (CONF_COLORS K) = None"
    and no_dict: "map_of ckvs (CONF_COLOR_RGB_DICT K) = None"
    and fuel: "0 < fuel"
  shows "\<exists>h1 sc. scene_colors_of_config K fuel h self = Inr (h1, sc)
           \<and> py_iter h1 sc = Inr []
           \<and> async_added_to_hass K png now fuel h self =
               (None, h1,
                self\<lparr>cached_image := Some \<lparr>content = png (new_image width height),
                                              content_type = ''image/png''\<rparr>,
                     attr_image_last_updated := now\<rparr>)"
proof -
  from cfg(2) have c: "c < length h" "h ! c = PDict ckvs" by (simp_all add: deref_Some)
  obtain mode where mode: "dict_get h (config self) (CONF_COLOR_SELECTOR_MODE K) PNone = Inr mode"
    using cfg by (simp add: dict_get_def)
  have "\<exists>h1 sc. scene_colors_of_config K fuel h self = Inr (h1, sc) \<and> py_iter h1 sc = Inr []"
  proof (cases "mode = PStr (COLOR_SELECTOR_RGB_UI K)")
    case False
    with mode cfg c no_colors show ?thesis
      by (simp add: scene_colors_of_config_def dict_get_def deref_def nth_append py_iter_def)
  next
    case True
    from fuel obtain n where n: "fuel = Suc n" by (cases fuel) auto
    let ?h0 = "h @ [PDict []]"
    let ?h1 = "?h0 @ [PDict []]"
    let ?h2 = "?h1 @ [PList []]"
    let ?h3 = "?h2[c := PDict (dict_setitem ckvs (CONF_COLORS K) (PRef (length ?h1)))]"
    have g: "dict_get ?h0 (config self) (CONF_COLOR_RGB_DICT K) (PRef (length h))
               = Inr (PRef (length h))"
      using cfg c no_dict by (simp add: dict_get_def deref_def nth_append)
    have d: "deepcopy fuel ?h0 (PRef (length h)) = Inr (?h1, PRef (length ?h0))"
      by (simp add: n deref_def nth_append)
    have v: "dict_values ?h1 (PRef (length ?h0)) = Inr []"
      by (simp add: dict_values_def deref_def nth_append)
    have u: "dict_update ?h2 (config self) (CONF_COLORS K) (PRef (length ?h1)) = Inr ?h3"
      using cfg c by (simp add: dict_update_def deref_def nth_append)
    have b: "async_build_colors_from_rgb_dict K fuel h self = Inr ?h3"
      unfolding async_build_colors_from_rgb_dict_def
      by (simp only: g d v u sum.case prod.case tag_all.simps)
    have g2: "dict_get (?h3 @ [PList []]) (config self) (CONF_COLORS K) (PRef (length ?h3))
                = Inr (PRef (length ?h1))"
      using cfg c by (simp add: dict_get_def deref_def nth_append map_of_dict_setitem)
    have it: "py_iter (?h3 @ [PList []]) (PRef (length ?h1)) = Inr []"
      using c by (simp add: py_iter_def deref_def nth_append nth_list_update)
    have "scene_colors_of_config K fuel h self = Inr (?h3 @ [PList []], PRef (length ?h1))"
      using mode True b g2 by (simp add: scene_colors_of_config_def)
    with it show ?thesis by blast
  qed
  then obtain h1 sc where sc: "scene_colors_of_config K fuel h self = Inr (h1, sc)"
    and it: "py_iter h1 sc = Inr []" by blast
  from it have "create_color_block_image png now h1 self sc =
      (None, self\<lparr>cached_image := Some \<lparr>content = png (new_image width height),
                                          content_type = ''image/png''\<rparr>,
                   attr_image_last_updated := now\<rparr>)"
    by (simp add: create_color_block_image_def draw_image_empty)
  with sc it show ?thesis
    by (simp add: async_added_to_hass_def)
qed


theorem no_colors_configured_renders_empty_witness:
  "\<forall>png now.
     config (entity_at 0) = PRef 0
     \<and> deref bare_heap 0 = Some (PDict [(''name'', PStr ''Scene''),
                                        (''color_selector_mode'', PStr ''rgb_ui'')])
     \<and> fst (async_added_to_hass names png now 1 bare_heap (entity_at 0)) = None
     \<and> cached_image (snd (snd (async_added_to_hass names png now 1 bare_heap (entity_at 0))))
         = Some \<lparr>content = png (new_image width height), content_type = ''image/png''\<rparr>"
proof (intro allI)
  fix png :: "image \<Rightarrow> bytes" and now :: timestamp
  have c: "config (entity_at 0) = PRef 0" by (simp add: entity_at_def)
  have d: "deref bare_heap 0 = Some (PDict [(''name'', PStr ''Scene''),
                                        (''color_selector_mode'', PStr ''rgb_ui'')])"
    by (simp add: bare_heap_def deref_def)
  have k1: "map_of [(''name'', PStr ''Scene''), (''color_selector_mode'', PStr ''rgb_ui'')]
              (CONF_COLORS names) = None"
    by (simp add: names_def)
  have k2: "map_of [(''name'', PStr ''Scene''), (''color_selector_mode'', PStr ''rgb_ui'')]
              (CONF_COLOR_RGB_DICT names) = None"
    by (simp add: names_def)
  have f: "0 < (1::nat)" by simp
  from no_colors_configured_renders_empty [OF c d k1 k2 f, of png now] c d
  show "config (entity_at 0) = PRef 0
     \<and> deref bare_heap 0 = Some (PDict [(''name'', PStr ''Scene''),
                                        (''color_selector_mode'', PStr ''rgb_ui'')])
     \<and> fst (async_added_to_hass names png now 1 bare_heap (entity_at 0)) = None
     \<and> cached_image (snd (snd (async_added_to_hass names png now 1 bare_heap (entity_at 0))))
         = Some \<lparr>content = png (new_image width height), content_type = ''image/png''\<rparr>"
    by auto
qed

section \<open>Trees in a changing store\<close>

lemma set_addr_list: "set (addr_list t) = set_ptree t"
  by (induction t) auto

lemma traverse_SomeD:
  "traverse f xs = Some ys \<Longrightarrow> list_all2 (\<lambda>x y. f x = Some y) xs ys"
  by (induction xs arbitrary: ys) (auto split: option.splits)

lemma traverse_SomeI:
  "list_all2 (\<lambda>x y. f x = Some y) xs ys \<Longrightarrow> traverse f xs = Some ys"
  by (induction xs ys rule: list_all2_induct) auto

lemma traverse_Some:
  "traverse f xs = Some ys \<longleftrightarrow> list_all2 (\<lambda>x y. f x = Some y) xs ys"
  using traverse_SomeD traverse_SomeI by blast

lemma tree_of_Leaf:
  "(\<And>a. v \<noteq> PRef a) \<Longrightarrow> tree_of (Suc n) h v = Some (Leaf v)"
  by (cases v) auto

lemma tree_of_PRef:
  "tree_of (Suc n) h (PRef a) = Some t \<longleftrightarrow>
     (\<exists>vs ts. deref h a = Some (PList vs) \<and> list_all2 (\<lambda>v t. tree_of n h v = Some t) vs ts
        \<and> t = ListNode a ts)
     \<or> (\<exists>kvs ts. deref h a = Some (PDict kvs)
        \<and> list_all2 (\<lambda>v t. tree_of n h v = Some t) (map snd kvs) ts
        \<and> t = DictNode a (map fst kvs) ts)"
  by (auto simp: traverse_Some split: option.splits pyobj.splits)


lemma tree_of_scalar:
  "(\<And>a. v \<noteq> PRef a) \<Longrightarrow> tree_of n h v = Some t \<Longrightarrow> t = Leaf v"
  by (cases n) (auto simp: tree_of_Leaf simp del: tree_of.simps(2))

lemma list_all2_set_mono:
  "list_all2 P xs ys \<Longrightarrow> (\<And>x y. y \<in> set ys \<Longrightarrow> P x y \<Longrightarrow> Q x y) \<Longrightarrow> list_all2 Q xs ys"
  by (induction xs ys rule: list_all2_induct) auto

lemma tree_of_addr_bound:
  "tree_of n h v = Some t \<Longrightarrow> a \<in> set_ptree t \<Longrightarrow> a < length h"
proof (induction n arbitrary: v t)
  case 0
  then show ?case by simp
next
  case (Suc n)
  show ?case
  proof (cases "\<exists>b. v = PRef b")
    case False
    with Suc.prems tree_of_scalar [of v "Suc n" h t] show ?thesis by auto
  next
    case True
    then obtain b where v: "v = PRef b" by blast
    from Suc.prems(1) [unfolded v tree_of_PRef]
    show ?thesis
    proof (elim disjE exE conjE)
      fix vs ts
      assume d: "deref h b = Some (PList vs)"
        and l: "list_all2 (\<lambda>v t. tree_of n h v = Some t) vs ts" and t: "t = ListNode b ts"
      show ?thesis
      proof (cases "a = b")
        case True
        with d show ?thesis by (simp add: deref_Some)
      next
        case False
        with Suc.prems(2) t obtain t' where t': "t' \<in> set ts" "a \<in> set_ptree t'" by auto
        then obtain i where "i < length ts" "ts ! i = t'" by (auto simp: in_set_conv_nth)
        with l have "tree_of n h (vs ! i) = Some t'" by (auto simp: list_all2_conv_all_nth)
        from Suc.IH [OF this t'(2)] show ?thesis .
      qed
    next
      fix kvs ts
      assume d: "deref h b = Some (PDict kvs)"
        and l: "list_all2 (\<lambda>v t. tree_of n h v = Some t) (map snd kvs) ts"
        and t: "t = DictNode b (map fst kvs) ts"
      show ?thesis
      proof (cases "a = b")
        case True
        with d show ?thesis by (simp add: deref_Some)
      next
        case False
        with Suc.prems(2) t obtain t' where t': "t' \<in> set ts" "a \<in> set_ptree t'" by auto
        then obtain i where "i < length ts" "ts ! i = t'" by (auto simp: in_set_conv_nth)
        with l have "tree_of n h (map snd kvs ! i) = Some t'"
          by (auto simp: list_all2_conv_all_nth)
        from Suc.IH [OF this t'(2)] show ?thesis .
      qed
    qed
  qed
qed

lemma tree_of_frame:
  "tree_of n h v = Some t \<Longrightarrow> length h \<le> length h' \<Longrightarrow>
     (\<And>a. a \<in> set_ptree t \<Longrightarrow> h' ! a = h ! a) \<Longrightarrow> tree_of n h' v = Some t"
proof (induction n arbitrary: v t)
  case 0
  then show ?case by simp
next
  case (Suc n)
  show ?case
  proof (cases "\<exists>b. v = PRef b")
    case False
    with Suc.prems(1) tree_of_scalar [of v "Suc n" h t] tree_of_Leaf [of v n h']
    show ?thesis by auto
  next
    case True
    then obtain b where v: "v = PRef b" by blast
    have sub: "list_all2 (\<lambda>v t. tree_of n h' v = Some t) vs ts"
      if "list_all2 (\<lambda>v t. tree_of n h v = Some t) vs ts" "set ts \<subseteq> {t'. set_ptree t' \<subseteq> set_ptree t}"
      for vs ts
      using that(1)
    proof (rule list_all2_set_mono)
      fix x y assume "y \<in> set ts" "tree_of n h x = Some y"
      with that(2) Suc.prems(2,3) show "tree_of n h' x = Some y"
        by (intro Suc.IH) auto
    qed
    from Suc.prems(1) [unfolded v tree_of_PRef]
    show ?thesis
    proof (elim disjE exE conjE)
      fix vs ts
      assume d: "deref h b = Some (PList vs)"
        and l: "list_all2 (\<lambda>v t. tree_of n h v = Some t) vs ts" and t: "t = ListNode b ts"
      from d Suc.prems(2,3) t have "deref h' b = Some (PList vs)"
        by (auto simp: deref_Some)
      moreover from l t have "list_all2 (\<lambda>v t. tree_of n h' v = Some t) vs ts"
        by (intro sub) auto
      ultimately show ?thesis unfolding v tree_of_PRef using t by blast
    next
      fix kvs ts
      assume d: "deref h b = Some (PDict kvs)"
        and l: "list_all2 (\<lambda>v t. tree_of n h v = Some t) (map snd kvs) ts"
        and t: "t = DictNode b (map fst kvs) ts"
      from d Suc.prems(2,3) t have "deref h' b = Some (PDict kvs)"
        by (auto simp: deref_Some)
      moreover from l t have "list_all2 (\<lambda>v t. tree_of n h' v = Some t) (map snd kvs) ts"
        by (intro sub) auto
      ultimately show ?thesis unfolding v tree_of_PRef using t by blast
    qed
  qed
qed

lemma tree_of_append: "tree_of n h v = Some t \<Longrightarrow> tree_of n (h @ ext) v = Some t"
proof (rule tree_of_frame)
  fix a assume "tree_of n h v = Some t" "a \<in> set_ptree t"
  then have "a < length h" by (rule tree_of_addr_bound)
  then show "(h @ ext) ! a = h ! a" by (simp add: nth_append)
qed simp_all

lemma tree_of_Suc: "tree_of n h v = Some t \<Longrightarrow> tree_of (Suc n) h v = Some t"
proof (induction n arbitrary: v t)
  case 0
  then show ?case by simp
next
  case (Suc n)
  show ?case
  proof (cases "\<exists>b. v = PRef b")
    case False
    with Suc.prems(1) tree_of_scalar [of v "Suc n" h t] tree_of_Leaf [of v "Suc n" h]
    show ?thesis by auto
  next
    case True
    then obtain b where v: "v = PRef b" by blast
    have sub: "list_all2 (\<lambda>v t. tree_of (Suc n) h v = Some t) vs ts"
      if "list_all2 (\<lambda>v t. tree_of n h v = Some t) vs ts" for vs ts
      using that by (rule list_all2_mono) (rule Suc.IH)
    from Suc.prems(1) [unfolded v tree_of_PRef] show ?thesis
      unfolding v tree_of_PRef [of "Suc n"] by (auto dest: sub)
  qed
qed

lemma tree_of_mono: "tree_of n h v = Some t \<Longrightarrow> n \<le> m \<Longrightarrow> tree_of m h v = Some t"
  by (induction m) (auto simp: le_Suc_eq dest: tree_of_Suc simp del: tree_of.simps(2))

section \<open>Deep copies\<close>

text \<open>
  A value that unfolds to a tree within the depth the fuel allows is copied without an
  exception. The store is only extended, the copy unfolds to a tree that is equal up to
  addresses, all addresses of the copy are new, and none occurs twice.
\<close>

lemma erase_fun: "erase = map_ptree (\<lambda>_. ())"
  by (rule ext) (simp add: erase_def)

lemma erase_simps:
  "erase (Leaf v) = Leaf v"
  "erase (ListNode a ts) = ListNode () (map erase ts)"
  "erase (DictNode a ks ts) = DictNode () ks (map erase ts)"
  by (simp_all add: erase_fun)

lemma copy_all_correct:
  assumes f: "\<And>h v t. tree_of n h v = Some t \<Longrightarrow>
      \<exists>ext v' t'. f h v = Inr (h @ ext, v') \<and> tree_of n (h @ ext) v' = Some t'
        \<and> erase t' = erase t \<and> (\<forall>a\<in>set_ptree t'. length h \<le> a) \<and> distinct (addr_list t')"
  shows "list_all2 (\<lambda>v t. tree_of n h v = Some t) vs ts \<Longrightarrow>
    \<exists>ext vs' ts'. copy_all f h vs = Inr (h @ ext, vs')
      \<and> list_all2 (\<lambda>v t. tree_of n (h @ ext) v = Some t) vs' ts'
      \<and> map erase ts' = map erase ts
      \<and> (\<forall>t'\<in>set ts'. \<forall>a\<in>set_ptree t'. length h \<le> a)
      \<and> distinct (concat (map addr_list ts'))"
proof (induction vs arbitrary: h ts)
  case Nil
  then have "ts = []" by simp
  moreover have "copy_all f h [] = Inr (h @ [], [])" by simp
  ultimately show ?case by fastforce
next
  case (Cons v vs)
  from Cons.prems obtain t ts1 where ts: "ts = t # ts1"
    and hv: "tree_of n h v = Some t"
    and rest: "list_all2 (\<lambda>v t. tree_of n h v = Some t) vs ts1"
    by (auto simp: list_all2_Cons1)
  from f [OF hv] obtain e1 v' t' where
    fv: "f h v = Inr (h @ e1, v')" and tv: "tree_of n (h @ e1) v' = Some t'"
    and er: "erase t' = erase t" and lo: "\<forall>a\<in>set_ptree t'. length h \<le> a"
    and di: "distinct (addr_list t')"
    by blast
  have "list_all2 (\<lambda>v t. tree_of n (h @ e1) v = Some t) vs ts1"
    using rest by (rule list_all2_mono) (rule tree_of_append)
  from Cons.IH [OF this] obtain e2 vs' ts' where
    ca: "copy_all f (h @ e1) vs = Inr ((h @ e1) @ e2, vs')"
    and tr: "list_all2 (\<lambda>v t. tree_of n ((h @ e1) @ e2) v = Some t) vs' ts'"
    and ers: "map erase ts' = map erase ts1"
    and los: "\<forall>t'\<in>set ts'. \<forall>a\<in>set_ptree t'. length (h @ e1) \<le> a"
    and dis: "distinct (concat (map addr_list ts'))"
    by blast
  have c: "copy_all f h (v # vs) = Inr (h @ (e1 @ e2), v' # vs')"
    using fv ca by simp
  have tv': "tree_of n (h @ (e1 @ e2)) v' = Some t'"
    using tree_of_append [OF tv, of e2] by simp
  have hi: "\<forall>a\<in>set_ptree t'. a < length (h @ e1)"
    using tree_of_addr_bound [OF tv] by blast
  have disj: "set (addr_list t') \<inter> set (concat (map addr_list ts')) = {}"
    using hi los by (fastforce simp: set_addr_list)
  have "list_all2 (\<lambda>v t. tree_of n (h @ (e1 @ e2)) v = Some t) (v' # vs') (t' # ts')"
    using tv' tr by simp
  moreover have "map erase (t' # ts') = map erase ts" using er ers ts by simp
  moreover have "\<forall>t''\<in>set (t' # ts'). \<forall>a\<in>set_ptree t''. length h \<le> a"
    using lo los by fastforce
  moreover have "distinct (concat (map addr_list (t' # ts')))"
    using di dis disj by simp
  ultimately show ?case using c by blast
qed

lemma deepcopy_correct:
  "tree_of n h v = Some t \<Longrightarrow> n \<le> fuel \<Longrightarrow>
     \<exists>ext v' t'. deepcopy fuel h v = Inr (h @ ext, v') \<and> tree_of n (h @ ext) v' = Some t'
        \<and> erase t' = erase t \<and> (\<forall>a\<in>set_ptree t'. length h \<le> a) \<and> distinct (addr_list t')"
proof (induction n arbitrary: fuel h v t)
  case 0
  then show ?case by simp
next
  case (Suc n)
  from Suc.prems(2) obtain m where fuel: "fuel = Suc m" and nm: "n \<le> m"
    by (cases fuel) auto
  have f: "\<And>h v t. tree_of n h v = Some t \<Longrightarrow>
      \<exists>ext v' t'. deepcopy m h v = Inr (h @ ext, v') \<and> tree_of n (h @ ext) v' = Some t'
        \<and> erase t' = erase t \<and> (\<forall>a\<in>set_ptree t'. length h \<le> a) \<and> distinct (addr_list t')"
    using Suc.IH nm by blast
  show ?case
  proof (cases "\<exists>b. v = PRef b")
    case False
    with Suc.prems(1) have t: "t = Leaf v" using tree_of_scalar by blast
    from False have "deepcopy fuel h v = Inr (h @ [], v)"
      by (cases v) (simp_all add: fuel)
    moreover have "tree_of (Suc n) (h @ []) v = Some t" using Suc.prems(1) by simp
    moreover have "distinct (addr_list t)" "\<forall>a\<in>set_ptree t. length h \<le> a"
      using t by simp_all
    ultimately show ?thesis by blast
  next
    case True
    then obtain b where v: "v = PRef b" by blast
    from Suc.prems(1) [unfolded v tree_of_PRef]
    show ?thesis
    proof (elim disjE exE conjE)
      fix vs ts
      assume d: "deref h b = Some (PList vs)"
        and l: "list_all2 (\<lambda>v t. tree_of n h v = Some t) vs ts" and t: "t = ListNode b ts"
      from copy_all_correct [of n "deepcopy m", OF f l, simplified] obtain ext vs' ts' where
        ca: "copy_all (deepcopy m) h vs = Inr (h @ ext, vs')"
        and tr: "list_all2 (\<lambda>v t. tree_of n (h @ ext) v = Some t) vs' ts'"
        and ers: "map erase ts' = map erase ts"
        and los: "\<forall>t'\<in>set ts'. \<forall>a\<in>set_ptree t'. length h \<le> a"
        and dis: "distinct (concat (map addr_list ts'))"
        by blast
      let ?a = "length (h @ ext)"
      let ?h = "h @ (ext @ [PList vs'])"
      have dc: "deepcopy fuel h v = Inr (?h, PRef ?a)"
        using d ca by (simp add: fuel v)
      have tr': "list_all2 (\<lambda>v t. tree_of n ?h v = Some t) vs' ts'"
        using tr by (rule list_all2_mono) (use tree_of_append [of n "h @ ext"] in auto)
      have "deref ?h ?a = Some (PList vs')"
        using deref_append_new [of "h @ ext" "PList vs'" "[]"] by simp
      with tr' have tt: "tree_of (Suc n) ?h (PRef ?a) = Some (ListNode ?a ts')"
        unfolding tree_of_PRef by blast
      have hi: "\<forall>t'\<in>set ts'. \<forall>a\<in>set_ptree t'. a < ?a"
      proof (intro ballI)
        fix t' a assume t': "t' \<in> set ts'" and a: "a \<in> set_ptree t'"
        from t' obtain i where "i < length ts'" "ts' ! i = t'" by (auto simp: in_set_conv_nth)
        with tr have "tree_of n (h @ ext) (vs' ! i) = Some t'"
          by (auto simp: list_all2_conv_all_nth)
        from tree_of_addr_bound [OF this a] show "a < ?a" .
      qed
      have "erase (ListNode ?a ts') = erase t"
        using ers t by (simp add: erase_simps)
      moreover have "\<forall>a\<in>set_ptree (ListNode ?a ts'). length h \<le> a"
        using los by auto
      moreover have "distinct (addr_list (ListNode ?a ts'))"
        using dis hi by (fastforce simp: set_addr_list)
      ultimately show ?thesis using dc tt by blast
    next
      fix kvs ts
      assume d: "deref h b = Some (PDict kvs)"
        and l: "list_all2 (\<lambda>v t. tree_of n h v = Some t) (map snd kvs) ts"
        and t: "t = DictNode b (map fst kvs) ts"
      from copy_all_correct [of n "deepcopy m", OF f l, simplified] obtain ext vs' ts' where
        ca: "copy_all (deepcopy m) h (map snd kvs) = Inr (h @ ext, vs')"
        and tr: "list_all2 (\<lambda>v t. tree_of n (h @ ext) v = Some t) vs' ts'"
        and ers: "map erase ts' = map erase ts"
        and los: "\<forall>t'\<in>set ts'. \<forall>a\<in>set_ptree t'. length h \<le> a"
        and dis: "distinct (concat (map addr_list ts'))"
        by blast
      let ?a = "length (h @ ext)"
      let ?kvs = "zip (map fst kvs) vs'"
      let ?h = "h @ (ext @ [PDict ?kvs])"
      have len: "length vs' = length kvs"
        using tr ers l by (metis length_map list_all2_lengthD)
      have dc: "deepcopy fuel h v = Inr (?h, PRef ?a)"
        using d ca by (simp add: fuel v)
      have tr': "list_all2 (\<lambda>v t. tree_of n ?h v = Some t) (map snd ?kvs) ts'"
        using tr len by (auto intro: list_all2_mono tree_of_append [of n "h @ ext", simplified])
      have "deref ?h ?a = Some (PDict ?kvs)"
        using deref_append_new [of "h @ ext" "PDict ?kvs" "[]"] by simp
      with tr' have "tree_of (Suc n) ?h (PRef ?a) = Some (DictNode ?a (map fst ?kvs) ts')"
        unfolding tree_of_PRef by blast
      then have tt: "tree_of (Suc n) ?h (PRef ?a) = Some (DictNode ?a (map fst kvs) ts')"
        using len by simp
      have hi: "\<forall>t'\<in>set ts'. \<forall>a\<in>set_ptree t'. a < ?a"
      proof (intro ballI)
        fix t' a assume t': "t' \<in> set ts'" and a: "a \<in> set_ptree t'"
        from t' obtain i where "i < length ts'" "ts' ! i = t'" by (auto simp: in_set_conv_nth)
        with tr have "tree_of n (h @ ext) (vs' ! i) = Some t'"
          by (auto simp: list_all2_conv_all_nth)
        from tree_of_addr_bound [OF this a] show "a < ?a" .
      qed
      have "erase (DictNode ?a (map fst kvs) ts') = erase t"
        using ers t by (simp add: erase_simps)
      moreover have "\<forall>a\<in>set_ptree (DictNode ?a (map fst kvs) ts'). length h \<le> a"
        using los by auto
      moreover have "distinct (addr_list (DictNode ?a (map fst kvs) ts'))"
        using dis hi by (fastforce simp: set_addr_list)
      ultimately show ?thesis using dc tt by blast
    qed
  qed
qed

section \<open>Tagging the copies\<close>

lemma dict_setitem_idem: "dict_setitem (dict_setitem kvs k v) k v = dict_setitem kvs k v"
  by (induction kvs) auto

lemma tag_obj_idem: "tag_obj K (tag_obj K obj) = tag_obj K obj"
  by (cases obj) (simp_all add: tag_obj_def dict_setitem_idem)

lemma tag_all_result:
  "(\<forall>v\<in>set vals. \<exists>e kvs. v = PRef e \<and> deref h e = Some (PDict kvs)) \<Longrightarrow>
     \<exists>h'. tag_all K h vals = Inr h' \<and> length h' = length h
       \<and> (\<forall>a<length h. h' ! a = (if PRef a \<in> set vals then tag_obj K (h ! a) else h ! a))"
proof (induction vals arbitrary: h)
  case Nil
  then show ?case by simp
next
  case (Cons v vals)
  from Cons.prems obtain e kvs where v: "v = PRef e" and d: "deref h e = Some (PDict kvs)"
    by auto
  from d have e: "e < length h" "h ! e = PDict kvs" by (simp_all add: deref_Some)
  let ?h1 = "h[e := tag_obj K (h ! e)]"
  have u: "dict_update h v (CONF_COLOR_TYPE K) (PStr (CONF_COLOR_RGB K)) = Inr ?h1"
    using v d e by (simp add: dict_update_def tag_obj_def)
  have "\<forall>v\<in>set vals. \<exists>e' kvs'. v = PRef e' \<and> deref ?h1 e' = Some (PDict kvs')"
  proof
    fix w assume "w \<in> set vals"
    with Cons.prems obtain e' kvs' where w: "w = PRef e'" "deref h e' = Some (PDict kvs')"
      by auto
    then show "\<exists>e' kvs'. w = PRef e' \<and> deref ?h1 e' = Some (PDict kvs')"
      using e by (cases "e' = e") (auto simp: deref_Some tag_obj_def)
  qed
  from Cons.IH [OF this] obtain h' where
    t: "tag_all K ?h1 vals = Inr h'" and len: "length h' = length ?h1"
    and eq: "\<forall>a<length ?h1. h' ! a = (if PRef a \<in> set vals then tag_obj K (?h1 ! a) else ?h1 ! a)"
    by blast
  have "tag_all K h (v # vals) = Inr h'" using u t by simp
  moreover have "length h' = length h" using len by simp
  moreover have "\<forall>a<length h. h' ! a =
      (if PRef a \<in> set (v # vals) then tag_obj K (h ! a) else h ! a)"
  proof (intro allI impI)
    fix a assume a: "a < length h"
    show "h' ! a = (if PRef a \<in> set (v # vals) then tag_obj K (h ! a) else h ! a)"
      using eq a v e by (cases "a = e") (auto simp: tag_obj_idem)
  qed
  ultimately show ?case by blast
qed

lemma distinct_concat_root:
  "distinct (concat (map addr_list ts)) \<Longrightarrow> t1 \<in> set ts \<Longrightarrow> t2 \<in> set ts \<Longrightarrow>
     addr_list t1 = e1 # as1 \<Longrightarrow> a \<in> set as1 \<Longrightarrow> addr_list t2 = e2 # as2 \<Longrightarrow> a \<noteq> e2"
proof (induction ts)
  case Nil
  then show ?case by simp
next
  case (Cons t ts)
  from Cons.prems(1) have d1: "distinct (addr_list t)"
    and d2: "distinct (concat (map addr_list ts))"
    and dj: "set (addr_list t) \<inter> set (concat (map addr_list ts)) = {}"
    by simp_all
  have in_rest: "set (addr_list t') \<subseteq> set (concat (map addr_list ts))" if "t' \<in> set ts" for t'
    using that by auto
  show ?case
  proof (cases "t1 = t")
    case t1: True
    show ?thesis
    proof (cases "t2 = t")
      case True
      with t1 Cons.prems d1 show ?thesis by auto
    next
      case False
      with Cons.prems have "t2 \<in> set ts" by simp
      with in_rest Cons.prems(6) have "e2 \<in> set (concat (map addr_list ts))" by fastforce
      moreover from t1 Cons.prems have "a \<in> set (addr_list t)" by simp
      ultimately show ?thesis using dj by blast
    qed
  next
    case False
    with Cons.prems have t1: "t1 \<in> set ts" by simp
    with in_rest Cons.prems(4,5) have a: "a \<in> set (concat (map addr_list ts))" by fastforce
    show ?thesis
    proof (cases "t2 = t")
      case True
      with Cons.prems have "e2 \<in> set (addr_list t)" by simp
      with a dj show ?thesis by blast
    next
      case False
      with Cons.prems have "t2 \<in> set ts" by simp
      from Cons.IH [OF d2 t1 this Cons.prems(4-6)] show ?thesis .
    qed
  qed
qed

lemma dict_setitem_zip:
  "length ts = length kvs \<Longrightarrow>
     map fst (dict_setitem (zip (map fst kvs) ts) k t) = map fst (dict_setitem kvs k v)
     \<and> length (dict_setitem (zip (map fst kvs) ts) k t) = length (dict_setitem kvs k v)"
proof (induction kvs arbitrary: ts)
  case Nil
  then show ?case by simp
next
  case (Cons kv kvs)
  then obtain t0 ts0 where "ts = t0 # ts0" by (cases ts) auto
  with Cons show ?case by auto
qed

lemma dict_setitem_all2:
  "list_all2 P (map snd kvs) ts \<Longrightarrow> P v t \<Longrightarrow>
     list_all2 P (map snd (dict_setitem kvs k v))
       (map snd (dict_setitem (zip (map fst kvs) ts) k t))"
proof (induction kvs arbitrary: ts)
  case Nil
  then show ?case by simp
next
  case (Cons kv kvs)
  then obtain t0 ts0 where ts: "ts = t0 # ts0" by (cases ts) auto
  with Cons.prems have len: "length (map fst kvs) = length ts0"
    by (auto dest: list_all2_lengthD)
  from ts Cons len show ?case by (auto simp: map_snd_zip)
qed

lemma tree_of_DictNode:
  "tree_of n h v = Some (DictNode a ks ts) \<Longrightarrow>
     \<exists>m kvs. n = Suc m \<and> v = PRef a \<and> deref h a = Some (PDict kvs) \<and> map fst kvs = ks
       \<and> list_all2 (\<lambda>v t. tree_of m h v = Some t) (map snd kvs) ts"
proof (cases n)
  case 0
  assume "tree_of n h v = Some (DictNode a ks ts)"
  with 0 show ?thesis by simp
next
  case (Suc m)
  assume t: "tree_of n h v = Some (DictNode a ks ts)"
  show ?thesis
  proof (cases "\<exists>b. v = PRef b")
    case False
    with t tree_of_scalar [of v n h] show ?thesis by auto
  next
    case True
    then obtain b where "v = PRef b" by blast
    with t Suc show ?thesis by (auto simp: tree_of_PRef simp del: tree_of.simps(2))
  qed
qed

lemma erase_DictNode:
  "erase t' = erase (DictNode a ks ts) \<Longrightarrow>
     \<exists>a' ts'. t' = DictNode a' ks ts' \<and> map erase ts' = map erase ts"
  by (cases t') (simp_all add: erase_simps)

lemma dict_setitem_map:
  "map (\<lambda>kt. (fst kt, f (snd kt))) (dict_setitem kts k v) =
     dict_setitem (map (\<lambda>kt. (fst kt, f (snd kt))) kts) k (f v)"
  by (induction kts) auto

lemma zip_map_snd: "zip ks (map f ts) = map (\<lambda>kt. (fst kt, f (snd kt))) (zip ks ts)"
  by (induction ks arbitrary: ts) (auto simp: zip_Cons1 split: list.splits)

lemma erase_tag_tree: "erase (tag_tree K t) = tag_tree K (erase t)"
proof (cases t)
  case (DictNode a ks ts)
  let ?k = "CONF_COLOR_TYPE K" and ?v = "Leaf (PStr (CONF_COLOR_RGB K)) :: 'a ptree"
  let ?u = "Leaf (PStr (CONF_COLOR_RGB K)) :: unit ptree"
  have e: "dict_setitem (zip ks (map erase ts)) ?k ?u
      = map (\<lambda>kt. (fst kt, erase (snd kt))) (dict_setitem (zip ks ts) ?k ?v)"
    by (simp add: zip_map_snd dict_setitem_map erase_simps)
  show ?thesis
    unfolding DictNode tag_tree_def erase_simps ptree.case e
    by (simp add: comp_def)
qed (simp_all add: tag_tree_def erase_simps)

section \<open>The colour list built from the mapping\<close>

lemma is_dict_node_erase:
  "is_dict_node t \<Longrightarrow> erase t' = erase t \<Longrightarrow> is_dict_node t'"
  by (cases t; cases t') (simp_all add: is_dict_node_def erase_simps)

lemma is_dict_nodeE:
  "is_dict_node t \<Longrightarrow> \<exists>e ks ts. t = DictNode e ks ts"
  by (cases t) (simp_all add: is_dict_node_def)

lemma tagged_entry_tree:
  assumes t: "tree_of m h1 v = Some (DictNode e eks ets)"
    and len: "length h1 \<le> length h4"
    and root: "h4 ! e = tag_obj K (h1 ! e)"
    and rest: "\<And>a. a \<in> set (concat (map addr_list ets)) \<Longrightarrow> h4 ! a = h1 ! a"
  shows "tree_of (Suc m) h4 v = Some (tag_tree K (DictNode e eks ets))"
proof -
  from tree_of_DictNode [OF t] obtain m' ekvs where m: "m = Suc m'" and v: "v = PRef e"
    and d: "deref h1 e = Some (PDict ekvs)" and ks: "map fst ekvs = eks"
    and l: "list_all2 (\<lambda>v t. tree_of m' h1 v = Some t) (map snd ekvs) ets"
    by blast
  let ?k = "CONF_COLOR_TYPE K" and ?s = "PStr (CONF_COLOR_RGB K)"
  from d have e: "e < length h1" "h1 ! e = PDict ekvs" by (simp_all add: deref_Some)
  have d4: "deref h4 e = Some (PDict (dict_setitem ekvs ?k ?s))"
    using e len root by (simp add: deref_Some tag_obj_def)
  have "list_all2 (\<lambda>v t. tree_of m h4 v = Some t) (map snd ekvs) ets"
    using l
  proof (rule list_all2_set_mono)
    fix w tc assume tc: "tc \<in> set ets" and w: "tree_of m' h1 w = Some tc"
    have "tree_of m' h4 w = Some tc"
      using w len
    proof (rule tree_of_frame)
      fix a assume "a \<in> set_ptree tc"
      with tc have "a \<in> set (concat (map addr_list ets))"
        by (auto simp: set_addr_list)
      then show "h4 ! a = h1 ! a" by (rule rest)
    qed
    then show "tree_of m h4 w = Some tc" unfolding m by (rule tree_of_Suc)
  qed
  moreover have "tree_of m h4 ?s = Some (Leaf ?s)"
    unfolding m by (rule tree_of_Leaf) simp
  ultimately have "list_all2 (\<lambda>v t. tree_of m h4 v = Some t)
      (map snd (dict_setitem ekvs ?k ?s))
      (map snd (dict_setitem (zip (map fst ekvs) ets) ?k (Leaf ?s)))"
    by (rule dict_setitem_all2)
  moreover have "length ets = length ekvs"
    using l by (auto dest: list_all2_lengthD)
  then have "map fst (dict_setitem (zip (map fst ekvs) ets) ?k (Leaf ?s))
      = map fst (dict_setitem ekvs ?k ?s)"
    by (rule dict_setitem_zip [THEN conjunct1])
  ultimately show ?thesis
    unfolding v tree_of_PRef tag_tree_def ptree.case using d4 ks by auto
qed


lemma nth_append_old: "a < length h \<Longrightarrow> (h @ ext) ! a = h ! a"
  by (simp add: nth_append)

lemma nth_append_new: "(h @ [obj]) ! length h = obj"
  by simp

lemma build_result:
  assumes cfg: "config self = PRef c" "deref h c = Some (PDict ckvs)"
    and x: "map_of ckvs (CONF_COLOR_RGB_DICT K) = Some x"
    and tx: "tree_of n h x = Some (DictNode d ks ts)"
    and ent: "list_all is_dict_node ts"
    and fuel: "n \<le> fuel"
  shows "\<exists>h' cl ts'. async_build_colors_from_rgb_dict K fuel h self = Inr h'
     \<and> length h < cl \<and> cl < length h'
     \<and> h' ! c = PDict (dict_setitem ckvs (CONF_COLORS K) (PRef cl))
     \<and> (\<forall>a<length h. a \<noteq> c \<longrightarrow> h' ! a = h ! a)
     \<and> tree_of (Suc n) h' (PRef cl) = Some (ListNode cl (map (tag_tree K) ts'))
     \<and> map erase ts' = map erase ts
     \<and> (\<forall>t'\<in>set ts'. \<forall>a\<in>set_ptree t'. length h < a)"
proof -
  let ?h0 = "h @ [PDict []]"
  from cfg(2) have c: "c < length h" "h ! c = PDict ckvs" by (simp_all add: deref_Some)
  have g: "dict_get ?h0 (config self) (CONF_COLOR_RGB_DICT K) (PRef (length h)) = Inr x"
    using cfg c x by (simp add: dict_get_def deref_def nth_append)
  have tx0: "tree_of n ?h0 x = Some (DictNode d ks ts)"
    using tx by (rule tree_of_append)
  from deepcopy_correct [OF tx0 fuel] obtain ext x' t' where
    dc: "deepcopy fuel ?h0 x = Inr (?h0 @ ext, x')"
    and tt: "tree_of n (?h0 @ ext) x' = Some t'"
    and er: "erase t' = erase (DictNode d ks ts)"
    and lo: "\<forall>a\<in>set_ptree t'. length ?h0 \<le> a"
    and di: "distinct (addr_list t')"
    by blast
  from erase_DictNode [OF er] obtain d' ts' where t': "t' = DictNode d' ks ts'"
    and ers: "map erase ts' = map erase ts"
    by blast
  let ?h1 = "?h0 @ ext"
  from tree_of_DictNode [OF tt [unfolded t']] obtain m kvs' where n: "n = Suc m"
    and x': "x' = PRef d'" and d': "deref ?h1 d' = Some (PDict kvs')"
    and l1: "list_all2 (\<lambda>v t. tree_of m ?h1 v = Some t) (map snd kvs') ts'"
    by blast
  let ?vals = "map snd kvs'"
  let ?cl = "length ?h1"
  let ?h2 = "?h1 @ [PList ?vals]"
  have dv: "dict_values ?h1 x' = Inr ?vals"
    using x' d' by (simp add: dict_values_def)
  have len_ts: "length ts' = length ts" using ers by (metis length_map)
  have ent': "is_dict_node t1" if "t1 \<in> set ts'" for t1
  proof -
    from that obtain i where i: "i < length ts'" "ts' ! i = t1"
      by (auto simp: in_set_conv_nth)
    with ers have "erase t1 = erase (ts ! i)" by (metis len_ts nth_map)
    moreover from ent i len_ts have "is_dict_node (ts ! i)" by (simp add: list_all_length)
    ultimately show ?thesis using is_dict_node_erase by blast
  qed
  have lo': "length ?h0 \<le> a" if "t1 \<in> set ts'" "a \<in> set_ptree t1" for t1 a
    using lo that unfolding t' by auto
  have dis: "distinct (concat (map addr_list ts'))"
    using di unfolding t' by simp
  \<comment> \<open>every value of the copied mapping is a reference to a dict\<close>
  have val: "\<exists>e eks ets. v = PRef e \<and> t1 = DictNode e eks ets
      \<and> tree_of m ?h1 v = Some (DictNode e eks ets) \<and> e < ?cl \<and> length ?h0 \<le> e"
    if "(v, t1) \<in> set (zip ?vals ts')" for v t1
  proof -
    from that l1 have tv: "tree_of m ?h1 v = Some t1"
      by (auto simp: list_all2_iff)
    from that have t1: "t1 \<in> set ts'" by (rule set_zip_rightD)
    from is_dict_nodeE [OF ent' [OF t1]] obtain e eks ets where dn: "t1 = DictNode e eks ets"
      by blast
    from tree_of_DictNode [OF tv [unfolded dn]] have v: "v = PRef e" by blast
    have "e < ?cl" using tree_of_addr_bound [OF tv, of e] dn by simp
    moreover have "length ?h0 \<le> e" using lo' [OF t1, of e] dn by simp
    ultimately show ?thesis using v dn tv by blast
  qed
  have len_vals: "length ?vals = length ts'" using l1 by (rule list_all2_lengthD)
  have val_in: "\<exists>t1. (v, t1) \<in> set (zip ?vals ts')" if "v \<in> set ?vals" for v
  proof -
    from that obtain i where i: "i < length ?vals" "?vals ! i = v"
      by (auto simp: in_set_conv_nth)
    with len_vals have "i < length (zip ?vals ts')" "zip ?vals ts' ! i = (v, ts' ! i)"
      by simp_all
    then have "(v, ts' ! i) \<in> set (zip ?vals ts')"
      by (metis nth_mem)
    then show ?thesis by blast
  qed
  have pre: "\<forall>v\<in>set ?vals. \<exists>e kvs. v = PRef e \<and> deref ?h2 e = Some (PDict kvs)"
  proof
    fix v assume "v \<in> set ?vals"
    from val_in [OF this] obtain t1 where "(v, t1) \<in> set (zip ?vals ts')" by blast
    from val [OF this] obtain e eks ets where v: "v = PRef e"
      and tv: "tree_of m ?h1 v = Some (DictNode e eks ets)" by blast
    from tree_of_DictNode [OF tv] obtain kvs where dk: "deref ?h1 e = Some (PDict kvs)"
      by blast
    then have "e < length ?h1" by (simp only: deref_Some)
    then have "deref ?h2 e = deref ?h1 e" by (rule deref_append)
    with dk have "deref ?h2 e = Some (PDict kvs)" by simp
    with v show "\<exists>e kvs. v = PRef e \<and> deref ?h2 e = Some (PDict kvs)" by blast
  qed
  from tag_all_result [OF pre, of K] obtain h3 where
    ta: "tag_all K ?h2 ?vals = Inr h3" and len3: "length h3 = length ?h2"
    and eq3: "\<forall>a<length ?h2. h3 ! a =
        (if PRef a \<in> set ?vals then tag_obj K (?h2 ! a) else ?h2 ! a)"
    by blast
  have not_val: "PRef a \<notin> set ?vals" if "a < length ?h0 \<or> ?cl \<le> a" for a
  proof
    assume "PRef a \<in> set ?vals"
    from val_in [OF this] obtain t1 where "(PRef a, t1) \<in> set (zip ?vals ts')" by blast
    from val [OF this] have "a < ?cl \<and> length ?h0 \<le> a" by auto
    with that show False by auto
  qed
  have eq3': "h3 ! a = (if PRef a \<in> set ?vals then tag_obj K (?h1 ! a) else ?h1 ! a)"
    if "a < ?cl" for a
  proof -
    from that have "a < length ?h2" by simp
    from eq3 [rule_format, OF this]
    have "h3 ! a = (if PRef a \<in> set ?vals then tag_obj K (?h2 ! a) else ?h2 ! a)" .
    moreover have "?h2 ! a = ?h1 ! a" using that by (rule nth_append_old)
    ultimately show ?thesis by (simp only:)
  qed
  have old: "h3 ! a = h ! a" if "a < length h" for a
  proof -
    from that have a: "a < ?cl" "a < length ?h0" by simp_all
    from a(2) have nv: "PRef a \<notin> set ?vals" by (intro not_val) simp
    from eq3' [OF a(1)] nv have "h3 ! a = ?h1 ! a" by simp
    also have "?h1 ! a = ?h0 ! a" using a(2) by (rule nth_append_old)
    also have "?h0 ! a = h ! a" using that by (rule nth_append_old)
    finally show ?thesis .
  qed
  let ?h4 = "h3[c := PDict (dict_setitem ckvs (CONF_COLORS K) (PRef ?cl))]"
  have du: "dict_update h3 (config self) (CONF_COLORS K) (PRef ?cl) = Inr ?h4"
    using cfg(1) c old [of c] len3 by (simp add: dict_update_def deref_def)
  have build: "async_build_colors_from_rgb_dict K fuel h self = Inr ?h4"
    unfolding async_build_colors_from_rgb_dict_def
    by (simp only: g dc dv ta du sum.case prod.case)
  \<comment> \<open>the list of the tagged copies\<close>
  have dcl: "deref ?h4 ?cl = Some (PList ?vals)"
  proof -
    have "?cl < length ?h2" by simp
    moreover have "PRef ?cl \<notin> set ?vals" by (intro not_val) simp
    ultimately have "h3 ! ?cl = ?h2 ! ?cl" using eq3 by simp
    also have "?h2 ! ?cl = PList ?vals" by (rule nth_append_new)
    finally have "h3 ! ?cl = PList ?vals" .
    moreover have "?cl \<noteq> c" using c by simp
    ultimately show ?thesis using len3 by (simp add: deref_Some)
  qed
  have entry: "tree_of n ?h4 v = Some (tag_tree K t1)"
    if vt: "(v, t1) \<in> set (zip ?vals ts')" for v t1
  proof -
    from val [OF vt] obtain e eks ets where v: "v = PRef e" and dn: "t1 = DictNode e eks ets"
      and tv: "tree_of m ?h1 v = Some (DictNode e eks ets)"
      and e: "e < ?cl" "length ?h0 \<le> e"
      by blast
    from vt have t1: "t1 \<in> set ts'" by (rule set_zip_rightD)
    from vt have vin: "PRef e \<in> set ?vals" unfolding v by (rule set_zip_leftD)
    have "e \<noteq> c" using e c by simp
    moreover have "h3 ! e = tag_obj K (?h1 ! e)"
      using eq3' [OF e(1)] vin by (simp only: if_True)
    ultimately have root: "?h4 ! e = tag_obj K (?h1 ! e)" by simp
    have rest: "?h4 ! a = ?h1 ! a" if a: "a \<in> set (concat (map addr_list ets))" for a
    proof -
      have al: "addr_list t1 = e # concat (map addr_list ets)" using dn by simp
      from a have "a \<in> set_ptree t1" using dn by (auto simp: set_addr_list)
      then have lo_a: "length ?h0 \<le> a" using lo' [OF t1] by blast
      from a have "a \<in> set_ptree (DictNode e eks ets)" by (auto simp: set_addr_list)
      with tv have hi_a: "a < ?cl" by (rule tree_of_addr_bound)
      have "PRef a \<notin> set ?vals"
      proof
        assume "PRef a \<in> set ?vals"
        from val_in [OF this] obtain t2 where z: "(PRef a, t2) \<in> set (zip ?vals ts')" by blast
        from val [OF z] obtain eks2 ets2 where "t2 = DictNode a eks2 ets2" by auto
        then have al2: "addr_list t2 = a # concat (map addr_list ets2)" by simp
        from z have "t2 \<in> set ts'" by (rule set_zip_rightD)
        from distinct_concat_root [OF dis t1 this al a al2] show False by simp
      qed
      with eq3' [OF hi_a] have "h3 ! a = ?h1 ! a" by simp
      moreover have "a \<noteq> c" using lo_a c by simp
      ultimately show ?thesis by simp
    qed
    have "length ?h1 \<le> length ?h4" using len3 by simp
    from tagged_entry_tree [OF tv this root rest] show ?thesis
      unfolding n dn by simp
  qed
  have "list_all2 (\<lambda>v t. tree_of n ?h4 v = Some t) ?vals (map (tag_tree K) ts')"
    unfolding list_all2_map2 using entry len_vals by (auto simp: list_all2_iff)
  with dcl have tree: "tree_of (Suc n) ?h4 (PRef ?cl) = Some (ListNode ?cl (map (tag_tree K) ts'))"
    unfolding tree_of_PRef by blast
  have "length h < ?cl" by simp
  moreover have "?cl < length ?h4" using len3 by simp
  moreover have "?h4 ! c = PDict (dict_setitem ckvs (CONF_COLORS K) (PRef ?cl))"
    using c len3 by simp
  moreover have "\<forall>a<length h. a \<noteq> c \<longrightarrow> ?h4 ! a = h ! a"
    using old by simp
  moreover have "\<forall>t'\<in>set ts'. \<forall>a\<in>set_ptree t'. length h < a"
    using lo' by fastforce
  ultimately show ?thesis using build tree ers by blast
qed

section \<open>The mapping and the list built from it\<close>

lemma tree_of_subtree:
  "tree_of n h v = Some t \<Longrightarrow> b \<in> set_ptree t \<Longrightarrow> \<exists>tb. tree_of n h (PRef b) = Some tb"
proof (induction n arbitrary: v t)
  case 0
  then show ?case by simp
next
  case (Suc n)
  show ?case
  proof (cases "\<exists>a. v = PRef a")
    case False
    with Suc.prems tree_of_scalar [of v "Suc n" h t] show ?thesis by auto
  next
    case True
    then obtain a where v: "v = PRef a" by blast
    show ?thesis
    proof (cases "b = a")
      case True
      with Suc.prems(1) v show ?thesis by blast
    next
      case False
      have child: "\<exists>tb. tree_of (Suc n) h (PRef b) = Some tb"
        if l: "list_all2 (\<lambda>v t. tree_of n h v = Some t) vs ts" and b: "b \<in> \<Union>(set_ptree ` set ts)"
        for vs ts
      proof -
        from b obtain t' where t': "t' \<in> set ts" "b \<in> set_ptree t'" by auto
        then obtain i where "i < length ts" "ts ! i = t'" by (auto simp: in_set_conv_nth)
        with l have "tree_of n h (vs ! i) = Some t'" by (auto simp: list_all2_conv_all_nth)
        from Suc.IH [OF this t'(2)] obtain tb where "tree_of n h (PRef b) = Some tb" by blast
        then have "tree_of (Suc n) h (PRef b) = Some tb" by (rule tree_of_Suc)
        then show ?thesis by blast
      qed
      from Suc.prems(1) [unfolded v tree_of_PRef] show ?thesis
      proof (elim disjE exE conjE)
        fix vs ts
        assume l: "list_all2 (\<lambda>v t. tree_of n h v = Some t) vs ts" and t: "t = ListNode a ts"
        from Suc.prems(2) False t have "b \<in> \<Union>(set_ptree ` set ts)" by simp
        with l show ?thesis by (rule child)
      next
        fix kvs ts
        assume l: "list_all2 (\<lambda>v t. tree_of n h v = Some t) (map snd kvs) ts"
          and t: "t = DictNode a (map fst kvs) ts"
        from Suc.prems(2) False t have "b \<in> \<Union>(set_ptree ` set ts)" by simp
        with l show ?thesis by (rule child)
      qed
    qed
  qed
qed

lemma config_not_in_mapping:
  "deref h c = Some (PDict ckvs) \<Longrightarrow> map_of ckvs k = Some x \<Longrightarrow>
     tree_of n h x = Some t \<Longrightarrow> c \<notin> set_ptree t"
proof (induction n)
  case 0
  then show ?case by simp
next
  case (Suc n)
  show ?case
  proof
    assume c: "c \<in> set_ptree t"
    from tree_of_subtree [OF Suc.prems(3) c] obtain tc where
      "tree_of (Suc n) h (PRef c) = Some tc" by blast
    with Suc.prems(1) obtain ts where
      l: "list_all2 (\<lambda>v t. tree_of n h v = Some t) (map snd ckvs) ts"
      by (auto simp: tree_of_PRef simp del: tree_of.simps(2))
    from Suc.prems(2) have "x \<in> set (map snd ckvs)"
      by (auto dest: map_of_SomeD intro: rev_image_eqI)
    then obtain i where i: "i < length (map snd ckvs)" "map snd ckvs ! i = x"
      by (metis in_set_conv_nth)
    with l have "tree_of n h x = Some (ts ! i)" by (auto simp: list_all2_conv_all_nth)
    moreover from this have "tree_of (Suc n) h x = Some (ts ! i)" by (rule tree_of_Suc)
    with Suc.prems(3) have "ts ! i = t" by simp
    ultimately have "tree_of n h x = Some t" by simp
    from Suc.IH [OF Suc.prems(1,2) this] c show False by simp
  qed
qed

lemma set_dict_setitem: "snd ` set (dict_setitem kts k v) \<subseteq> insert v (snd ` set kts)"
  by (induction kts) auto

lemma set_ptree_tag_tree: "set_ptree (tag_tree K t) \<subseteq> set_ptree t"
proof (cases t)
  case (DictNode a ks ts)
  let ?kts = "dict_setitem (zip ks ts) (CONF_COLOR_TYPE K) (Leaf (PStr (CONF_COLOR_RGB K)))"
  have "snd ` set ?kts \<subseteq> insert (Leaf (PStr (CONF_COLOR_RGB K))) (snd ` set (zip ks ts))"
    by (rule set_dict_setitem)
  moreover have "snd ` set (zip ks ts) \<subseteq> set ts"
    by (auto dest: set_zip_rightD)
  ultimately have "snd ` set ?kts \<subseteq> insert (Leaf (PStr (CONF_COLOR_RGB K))) (set ts)"
    by blast
  then have "\<Union>(set_ptree ` snd ` set ?kts) \<subseteq> \<Union>(set_ptree ` set ts)"
    by fastforce
  then show ?thesis unfolding DictNode tag_tree_def by auto
qed (simp_all add: tag_tree_def)

text \<open>
  Claim C7. For a configuration whose colour mapping (the value of
  \<open>CONF_COLOR_RGB_DICT\<close>) is a dict of dicts of depth at most \<open>n\<close>, and call depth
  enough for it, \<open>_async_build_colors_from_rgb_dict\<close> raises nothing and stores under
  \<open>CONF_COLORS\<close> a list whose elements are, in the mapping's iteration order and
  without its keys, the mapping's values, each with \<open>CONF_COLOR_TYPE\<close> set to
  \<open>CONF_COLOR_RGB\<close>.
\<close>

theorem rgb_dict_values_become_tagged_list:
  assumes cfg: "config self = PRef c" "deref h c = Some (PDict ckvs)"
    and x: "map_of ckvs (CONF_COLOR_RGB_DICT K) = Some x"
    and tx: "tree_of n h x = Some (DictNode d ks ts)"
    and ent: "list_all is_dict_node ts"
    and fuel: "n \<le> fuel"
  shows "\<exists>h' cl ts'. async_build_colors_from_rgb_dict K fuel h self = Inr h'
     \<and> getitem h' (config self) (CONF_COLORS K) = Inr (PRef cl)
     \<and> tree_of (Suc n) h' (PRef cl) = Some (ListNode cl ts')
     \<and> map erase ts' = map (\<lambda>t. tag_tree K (erase t)) ts"
proof -
  from build_result [OF cfg x tx ent fuel] obtain h' cl ts1 where
    b: "async_build_colors_from_rgb_dict K fuel h self = Inr h'"
    and cl: "length h < cl" "cl < length h'"
    and hc: "h' ! c = PDict (dict_setitem ckvs (CONF_COLORS K) (PRef cl))"
    and tr: "tree_of (Suc n) h' (PRef cl) = Some (ListNode cl (map (tag_tree K) ts1))"
    and er: "map erase ts1 = map erase ts"
    by blast
  from cfg(2) have "c < length h" by (simp add: deref_Some)
  with cl hc cfg(1) have "getitem h' (config self) (CONF_COLORS K) = Inr (PRef cl)"
    by (simp add: getitem_def deref_def map_of_dict_setitem)
  moreover have "map erase (map (tag_tree K) ts1) = map (\<lambda>t. tag_tree K (erase t)) ts"
  proof -
    have "map erase (map (tag_tree K) ts1) = map (tag_tree K) (map erase ts1)"
      by (simp add: erase_tag_tree)
    also have "\<dots> = map (tag_tree K) (map erase ts)" by (simp only: er)
    finally show ?thesis by simp
  qed
  ultimately show ?thesis using b tr by blast
qed

theorem rgb_dict_values_become_tagged_list_witness:
  "config (entity_at 5) = PRef 5
   \<and> deref rgb_heap 5 = Some (PDict [(''name'', PStr ''Scene''),
         (''color_selector_mode'', PStr ''rgb_ui''), (''color_rgb_dict'', PRef 4)])
   \<and> tree_of 4 rgb_heap (PRef 4) = Some (DictNode 4 [''a'', ''b'']
        [DictNode 2 [''color'', ''weight'']
           [ListNode 0 [Leaf (PInt 255), Leaf (PInt 0), Leaf (PInt 0)], Leaf (PInt 1)],
         DictNode 3 [''color'', ''weight'']
           [ListNode 1 [Leaf (PInt 0), Leaf (PInt 255), Leaf (PInt 0)], Leaf (PInt 1)]])
   \<and> (\<exists>h' cl ts'. async_build_colors_from_rgb_dict names 4 rgb_heap (entity_at 5) = Inr h'
        \<and> getitem h' (PRef 5) ''colors'' = Inr (PRef cl)
        \<and> tree_of (Suc 4) h' (PRef cl) = Some (ListNode cl ts')
        \<and> map erase ts' =
            [DictNode () [''color'', ''weight'', ''color_type'']
               [ListNode () [Leaf (PInt 255), Leaf (PInt 0), Leaf (PInt 0)], Leaf (PInt 1),
                Leaf (PStr ''rgb'')],
             DictNode () [''color'', ''weight'', ''color_type'']
               [ListNode () [Leaf (PInt 0), Leaf (PInt 255), Leaf (PInt 0)], Leaf (PInt 1),
                Leaf (PStr ''rgb'')]])"
proof -
  have c: "config (entity_at 5) = PRef 5" by (simp add: entity_at_def)
  have d: "deref rgb_heap 5 = Some (PDict [(''name'', PStr ''Scene''),
         (''color_selector_mode'', PStr ''rgb_ui''), (''color_rgb_dict'', PRef 4)])"
    by (simp add: rgb_heap_def deref_def)
  have x: "map_of [(''name'', PStr ''Scene''), (''color_selector_mode'', PStr ''rgb_ui''),
         (''color_rgb_dict'', PRef 4)] (CONF_COLOR_RGB_DICT names) = Some (PRef 4)"
    by (simp add: names_def)
  have t: "tree_of 4 rgb_heap (PRef 4) = Some (DictNode 4 [''a'', ''b'']
        [DictNode 2 [''color'', ''weight'']
           [ListNode 0 [Leaf (PInt 255), Leaf (PInt 0), Leaf (PInt 0)], Leaf (PInt 1)],
         DictNode 3 [''color'', ''weight'']
           [ListNode 1 [Leaf (PInt 0), Leaf (PInt 255), Leaf (PInt 0)], Leaf (PInt 1)]])"
    by (simp add: eval_nat_numeral rgb_heap_def deref_def)
  have e: "list_all is_dict_node
        [DictNode 2 [''color'', ''weight'']
           [ListNode 0 [Leaf (PInt 255), Leaf (PInt 0), Leaf (PInt 0)], Leaf (PInt 1)],
         DictNode (3::nat) [''color'', ''weight'']
           [ListNode 1 [Leaf (PInt 0), Leaf (PInt 255), Leaf (PInt 0)], Leaf (PInt 1)]]"
    by (simp add: is_dict_node_def)
  have f: "(4::nat) \<le> 4" by simp
  from rgb_dict_values_become_tagged_list [OF c d x t e f] c d t show ?thesis
    by (simp add: names_def tag_tree_def erase_simps)
qed


text \<open>
  Claim C6. Under the same conditions, and the keys \<open>CONF_COLORS\<close> and
  \<open>CONF_COLOR_RGB_DICT\<close> being different, the stored mapping is the same after the call
  as before (the same objects with the same contents: the tagging has not touched it), no
  object of the produced list (the list, its entries, anything inside them) is an object
  of the mapping, and assigning anything to any object of the produced list leaves the
  mapping as it was.
\<close>

theorem copied_entries_not_aliased:
  assumes cfg: "config self = PRef c" "deref h c = Some (PDict ckvs)"
    and x: "map_of ckvs (CONF_COLOR_RGB_DICT K) = Some x"
    and tx: "tree_of n h x = Some (DictNode d ks ts)"
    and ent: "list_all is_dict_node ts"
    and fuel: "n \<le> fuel"
    and keys: "CONF_COLORS K \<noteq> CONF_COLOR_RGB_DICT K"
  shows "\<exists>h' cl tl. async_build_colors_from_rgb_dict K fuel h self = Inr h'
     \<and> getitem h' (config self) (CONF_COLOR_RGB_DICT K) = Inr x
     \<and> tree_of n h' x = Some (DictNode d ks ts)
     \<and> getitem h' (config self) (CONF_COLORS K) = Inr (PRef cl)
     \<and> tree_of (Suc n) h' (PRef cl) = Some tl
     \<and> set_ptree tl \<inter> set_ptree (DictNode d ks ts) = {}
     \<and> (\<forall>a\<in>set_ptree tl. \<forall>obj. tree_of n (h'[a := obj]) x = Some (DictNode d ks ts))"
proof -
  let ?t = "DictNode d ks ts"
  from build_result [OF cfg x tx ent fuel] obtain h' cl ts1 where
    b: "async_build_colors_from_rgb_dict K fuel h self = Inr h'"
    and cl: "length h < cl" "cl < length h'"
    and hc: "h' ! c = PDict (dict_setitem ckvs (CONF_COLORS K) (PRef cl))"
    and old: "\<forall>a<length h. a \<noteq> c \<longrightarrow> h' ! a = h ! a"
    and tr: "tree_of (Suc n) h' (PRef cl) = Some (ListNode cl (map (tag_tree K) ts1))"
    and new: "\<forall>t'\<in>set ts1. \<forall>a\<in>set_ptree t'. length h < a"
    by blast
  let ?tl = "ListNode cl (map (tag_tree K) ts1)"
  from cfg(2) have c: "c < length h" by (simp add: deref_Some)
  have low: "a < length h" if "a \<in> set_ptree ?t" for a
    using tx that by (rule tree_of_addr_bound)
  have nc: "c \<notin> set_ptree ?t"
    using cfg(2) x tx by (rule config_not_in_mapping)
  have high: "length h < a" if "a \<in> set_ptree ?tl" for a
  proof (cases "a = cl")
    case True
    with cl show ?thesis by simp
  next
    case False
    with that obtain t1 where "t1 \<in> set ts1" "a \<in> set_ptree (tag_tree K t1)" by auto
    with set_ptree_tag_tree [of K t1] new show ?thesis by blast
  qed
  have g1: "getitem h' (config self) (CONF_COLOR_RGB_DICT K) = Inr x"
    using c cl hc cfg(1) x keys by (simp add: getitem_def deref_def map_of_dict_setitem)
  have g2: "getitem h' (config self) (CONF_COLORS K) = Inr (PRef cl)"
    using c cl hc cfg(1) by (simp add: getitem_def deref_def map_of_dict_setitem)
  have len: "length h \<le> length h'" using cl by simp
  have t1: "tree_of n h' x = Some ?t"
    using tx len
  proof (rule tree_of_frame)
    fix a assume a: "a \<in> set_ptree ?t"
    with nc have "a \<noteq> c" by blast
    with old low [OF a] show "h' ! a = h ! a" by blast
  qed
  have disj: "set_ptree ?tl \<inter> set_ptree ?t = {}"
    using low high by fastforce
  have mut: "\<forall>a\<in>set_ptree ?tl. \<forall>obj. tree_of n (h'[a := obj]) x = Some ?t"
  proof (intro ballI allI)
    fix a obj assume a: "a \<in> set_ptree ?tl"
    show "tree_of n (h'[a := obj]) x = Some ?t"
      using t1
    proof (rule tree_of_frame)
      fix b assume "b \<in> set_ptree ?t"
      with a disj have "b \<noteq> a" by blast
      then show "h'[a := obj] ! b = h' ! b" by simp
    qed simp
  qed
  from b g1 t1 g2 tr disj mut show ?thesis by blast
qed

theorem copied_entries_not_aliased_witness:
  "config (entity_at 5) = PRef 5
   \<and> deref rgb_heap 5 = Some (PDict [(''name'', PStr ''Scene''),
         (''color_selector_mode'', PStr ''rgb_ui''), (''color_rgb_dict'', PRef 4)])
   \<and> tree_of 4 rgb_heap (PRef 4) = Some rgb_tree
   \<and> CONF_COLORS names \<noteq> CONF_COLOR_RGB_DICT names
   \<and> (\<exists>h' cl tl. async_build_colors_from_rgb_dict names 4 rgb_heap (entity_at 5) = Inr h'
        \<and> getitem h' (config (entity_at 5)) (CONF_COLOR_RGB_DICT names) = Inr (PRef 4)
        \<and> tree_of 4 h' (PRef 4) = Some rgb_tree
        \<and> getitem h' (config (entity_at 5)) (CONF_COLORS names) = Inr (PRef cl)
        \<and> tree_of (Suc 4) h' (PRef cl) = Some tl
        \<and> set_ptree tl \<inter> set_ptree rgb_tree = {}
        \<and> (\<forall>a\<in>set_ptree tl. \<forall>obj. tree_of 4 (h'[a := obj]) (PRef 4) = Some rgb_tree))"
proof -
  have c: "config (entity_at 5) = PRef 5" by (simp add: entity_at_def)
  have d: "deref rgb_heap 5 = Some (PDict [(''name'', PStr ''Scene''),
         (''color_selector_mode'', PStr ''rgb_ui''), (''color_rgb_dict'', PRef 4)])"
    by (simp add: rgb_heap_def deref_def)
  have x: "map_of [(''name'', PStr ''Scene''), (''color_selector_mode'', PStr ''rgb_ui''),
         (''color_rgb_dict'', PRef 4)] (CONF_COLOR_RGB_DICT names) = Some (PRef 4)"
    by (simp add: names_def)
  have t: "tree_of 4 rgb_heap (PRef 4) = Some (DictNode 4 [''a'', ''b'']
        [DictNode 2 [''color'', ''weight'']
           [ListNode 0 [Leaf (PInt 255), Leaf (PInt 0), Leaf (PInt 0)], Leaf (PInt 1)],
         DictNode 3 [''color'', ''weight'']
           [ListNode 1 [Leaf (PInt 0), Leaf (PInt 255), Leaf (PInt 0)], Leaf (PInt 1)]])"
    by (simp add: eval_nat_numeral rgb_heap_def deref_def)
  have e: "list_all is_dict_node
        [DictNode 2 [''color'', ''weight'']
           [ListNode 0 [Leaf (PInt 255), Leaf (PInt 0), Leaf (PInt 0)], Leaf (PInt 1)],
         DictNode (3::nat) [''color'', ''weight'']
           [ListNode 1 [Leaf (PInt 0), Leaf (PInt 255), Leaf (PInt 0)], Leaf (PInt 1)]]"
    by (simp add: is_dict_node_def)
  have f: "(4::nat) \<le> 4" by simp
  have k: "CONF_COLORS names \<noteq> CONF_COLOR_RGB_DICT names" by (simp add: names_def)
  note r = copied_entries_not_aliased [OF c d x t e f k, folded rgb_tree_def]
  from t have t': "tree_of 4 rgb_heap (PRef 4) = Some rgb_tree" by (simp only: rgb_tree_def)
  from c d t' k r show ?thesis by (intro conjI)
qed

end
